theory Spec2Isabelle
  imports Complex_Main "HOL-Library.Log_Nat"
begin

section \<open>Python values used by \<open>app.py\<close>\<close>

subsection \<open>Floats (IEEE 754 binary64)\<close>

text \<open>
  A Python \<open>float\<close> is a binary64 number.  A finite float is modelled by its exact real
  value, the results of arithmetic are rounded to the nearest representable value with ties
  to the even significand, and a result of magnitude \<open>2 ^ 1024\<close> or more after rounding
  becomes an infinity.  The two zeros \<open>0.0\<close> and \<open>-0.0\<close> are identified: the program never
  separates them (a zero divisor raises for both, comparisons and \<open>math.floor\<close> agree).
\<close>

datatype pyfloat = Fin real | PInf | NInf | NaN

definition round_half_even :: "real \<Rightarrow> int" where
  "round_half_even x =
     (let f = \<lfloor>x\<rfloor>; d = x - of_int f
      in if d < 1 / 2 then f else if 1 / 2 < d then f + 1 else if even f then f else f + 1)"

text \<open>\<open>ilog2 x\<close> is the \<open>k\<close> with \<open>2 ^ k \<le> x < 2 ^ (k + 1)\<close>, for \<open>0 < x\<close>.\<close>

definition ilog2 :: "real \<Rightarrow> int" where
  "ilog2 x = (if 1 \<le> x then int (floorlog 2 (nat \<lfloor>x\<rfloor>)) - 1
              else - int (floorlog 2 (nat (\<lceil>1 / x\<rceil> - 1))))"

text \<open>
  Rounding of an exact result to binary64: 53 significant bits, the exponent of the last
  place not below \<open>-1074\<close> (subnormal numbers), overflow to an infinity.
\<close>

definition round_double :: "real \<Rightarrow> pyfloat" where
  "round_double x =
     (if x = 0 then Fin 0
      else let a = \<bar>x\<bar>;
               e = max (ilog2 a - 52) (- 1074);
               y = of_int (round_half_even (a / 2 powi e)) * 2 powi e
           in if 2 ^ 1024 \<le> y then (if 0 < x then PInf else NInf)
              else Fin (if 0 < x then y else - y))"

definition is_double :: "real \<Rightarrow> bool" where
  "is_double x \<longleftrightarrow> round_double x = Fin x"

subsection \<open>Exceptions\<close>

datatype pyexn =
    AttributeError | KeyError | TypeError | ValueError | OverflowError | ZeroDivisionError
  | IndexError
  | BinanceAPIException string
  | BinanceOrderException string
  | OtherException string

subsection \<open>Float arithmetic, as Python evaluates it\<close>

text \<open>\<open>a * b\<close> on two floats: never raises; an overflow gives an infinity.\<close>

fun float_mul :: "pyfloat \<Rightarrow> pyfloat \<Rightarrow> pyfloat" where
  "float_mul (Fin a) (Fin b) = round_double (a * b)"
| "float_mul NaN _ = NaN"
| "float_mul _ NaN = NaN"
| "float_mul (Fin a) PInf = (if a = 0 then NaN else if 0 < a then PInf else NInf)"
| "float_mul (Fin a) NInf = (if a = 0 then NaN else if 0 < a then NInf else PInf)"
| "float_mul PInf (Fin b) = (if b = 0 then NaN else if 0 < b then PInf else NInf)"
| "float_mul NInf (Fin b) = (if b = 0 then NaN else if 0 < b then NInf else PInf)"
| "float_mul PInf PInf = PInf"
| "float_mul PInf NInf = NInf"
| "float_mul NInf PInf = NInf"
| "float_mul NInf NInf = PInf"

text \<open>\<open>a / b\<close> on two floats: a zero divisor raises \<open>ZeroDivisionError\<close>.\<close>

fun float_truediv :: "pyfloat \<Rightarrow> pyfloat \<Rightarrow> pyexn + pyfloat" where
  "float_truediv a (Fin b) =
     (if b = 0 then Inl ZeroDivisionError
      else case a of
             Fin x \<Rightarrow> Inr (round_double (x / b))
           | PInf \<Rightarrow> Inr (if 0 < b then PInf else NInf)
           | NInf \<Rightarrow> Inr (if 0 < b then NInf else PInf)
           | NaN \<Rightarrow> Inr NaN)"
| "float_truediv (Fin x) PInf = Inr (Fin 0)"
| "float_truediv (Fin x) NInf = Inr (Fin 0)"
| "float_truediv _ _ = Inr NaN"

text \<open>\<open>math.floor\<close>: an \<open>int\<close>; raises on \<open>nan\<close> and on the infinities.\<close>

fun math_floor :: "pyfloat \<Rightarrow> pyexn + int" where
  "math_floor (Fin x) = Inr \<lfloor>x\<rfloor>"
| "math_floor NaN = Inl ValueError"
| "math_floor _ = Inl OverflowError"

text \<open>
  The conversion of an \<open>int\<close> operand of mixed arithmetic to a float: correctly rounded,
  \<open>OverflowError\<close> when the integer is too large.
\<close>

definition float_of_int :: "int \<Rightarrow> pyexn + pyfloat" where
  "float_of_int n = (case round_double (of_int n) of Fin y \<Rightarrow> Inr (Fin y) | _ \<Rightarrow> Inl OverflowError)"

text \<open>\<open>a / b\<close> on two \<open>int\<close>s: the correctly rounded quotient.\<close>

definition int_truediv :: "int \<Rightarrow> int \<Rightarrow> pyexn + pyfloat" where
  "int_truediv a b =
     (if b = 0 then Inl ZeroDivisionError
      else case round_double (of_int a / of_int b) of
             Fin y \<Rightarrow> Inr (Fin y)
           | _ \<Rightarrow> Inl OverflowError)"

text \<open>\<open>a < b\<close>: false whenever an operand is \<open>nan\<close>; a float and an \<open>int\<close> compare exactly.\<close>

fun float_lt :: "pyfloat \<Rightarrow> pyfloat \<Rightarrow> bool" where
  "float_lt NaN _ = False"
| "float_lt _ NaN = False"
| "float_lt (Fin a) (Fin b) = (a < b)"
| "float_lt NInf b = (b \<noteq> NInf)"
| "float_lt a PInf = (a \<noteq> PInf)"
| "float_lt _ _ = False"

definition float_lt_int :: "pyfloat \<Rightarrow> int \<Rightarrow> bool" where
  "float_lt_int a n = float_lt a (Fin (of_int n))"

text \<open>
  \<open>round(x, ndigits)\<close> on a float with \<open>0 \<le> ndigits\<close>: the float nearest to the decimal
  with \<open>ndigits\<close> fractional digits nearest to the exact value of \<open>x\<close> (ties to even, both
  times); \<open>nan\<close> and the infinities round to themselves, as does every float when
  \<open>ndigits\<close> exceeds 323.
\<close>

definition py_round :: "pyfloat \<Rightarrow> nat \<Rightarrow> pyexn + pyfloat" where
  "py_round x ndigits =
     (case x of
        Fin v \<Rightarrow>
          if 323 < ndigits then Inr x
          else (case round_double (of_int (round_half_even (v * 10 ^ ndigits)) / 10 ^ ndigits) of
                  Fin y \<Rightarrow> Inr (Fin y)
                | _ \<Rightarrow> Inl OverflowError)
      | _ \<Rightarrow> Inr x)"

subsection \<open>Strings\<close>

text \<open>
  A \<open>str\<close> of a payload (a key, a value, the configured token) is the list of its Unicode
  code points; \<open>ustr\<close> turns a literal into one.  \<open>isspace\<close> holds for the 29 code points
  that \<open>str.isspace\<close> accepts, which are the ones \<open>strip()\<close> removes.  \<open>lower_cp\<close> is
  the lowercase mapping of \<open>str.lower\<close> on the code points below 256 and on the five code
  points above whose lowercase form has a code point below 256.  Python maps further code
  points above 255 to code points above 255; the model leaves them as they are, which
  changes no comparison of a lowered text with \<open>buy\<close> or \<open>sell\<close>.  The names of symbols,
  assets and filter types and the rendering of floats are \<open>string\<close>s.
\<close>

type_synonym ustring = "nat list"

definition ustr :: "string \<Rightarrow> ustring" where
  "ustr s = map of_char s"

definition isspace :: "nat \<Rightarrow> bool" where
  "isspace c \<longleftrightarrow>
     (9 \<le> c \<and> c \<le> 13) \<or> (28 \<le> c \<and> c \<le> 32) \<or> c = 133 \<or> c = 160 \<or> c = 5760
     \<or> (8192 \<le> c \<and> c \<le> 8202) \<or> c = 8232 \<or> c = 8233 \<or> c = 8239 \<or> c = 8287 \<or> c = 12288"

definition str_strip :: "ustring \<Rightarrow> ustring" where
  "str_strip s = rev (dropWhile isspace (rev (dropWhile isspace s)))"

definition lower_cp :: "nat \<Rightarrow> ustring" where
  "lower_cp c =
     (if (65 \<le> c \<and> c \<le> 90) \<or> (192 \<le> c \<and> c \<le> 222 \<and> c \<noteq> 215) then [c + 32]
      else if c = 304 then [105, 775]
      else if c = 376 then [255]
      else if c = 7838 then [223]
      else if c = 8490 then [107]
      else if c = 8491 then [229]
      else [c])"

definition str_lower :: "ustring \<Rightarrow> ustring" where
  "str_lower s = concat (map lower_cp s)"

text \<open>\<open>s.rstrip(c)\<close> for a one-character argument.\<close>

definition str_rstrip :: "char \<Rightarrow> string \<Rightarrow> string" where
  "str_rstrip c s = rev (dropWhile (\<lambda>x. x = c) (rev s))"

text \<open>\<open>s.split(c)\<close> for a one-character separator: never empty.\<close>

fun str_split :: "char \<Rightarrow> string \<Rightarrow> string list" where
  "str_split c [] = [[]]"
| "str_split c (x # xs) =
     (if x = c then [] # str_split c xs
      else (case str_split c xs of p # ps \<Rightarrow> (x # p) # ps | [] \<Rightarrow> [[x]]))"

text \<open>\<open>xs[i]\<close> for \<open>0 \<le> i\<close>.\<close>

definition py_index :: "'a list \<Rightarrow> nat \<Rightarrow> pyexn + 'a" where
  "py_index xs i = (if i < length xs then Inr (xs ! i) else Inl IndexError)"

definition digit_char :: "nat \<Rightarrow> char" where
  "digit_char d = char_of (48 + d)"

fun dec_digits :: "nat \<Rightarrow> string" where
  "dec_digits n = (if n < 10 then [digit_char n] else dec_digits (n div 10) @ [digit_char (n mod 10)])"

primrec fixed_digits :: "nat \<Rightarrow> nat \<Rightarrow> string" where
  "fixed_digits 0 n = []"
| "fixed_digits (Suc k) n = fixed_digits k (n div 10) @ [digit_char (n mod 10)]"

text \<open>
  \<open>f"{x:.pf}"\<close>: the exact value of \<open>x\<close> rounded to \<open>p\<close> fractional digits (ties to
  even), written with all \<open>p\<close> digits.
\<close>

definition format_f :: "nat \<Rightarrow> pyfloat \<Rightarrow> string" where
  "format_f p x =
     (case x of
        Fin v \<Rightarrow>
          (let n = nat (round_half_even (\<bar>v\<bar> * 10 ^ p))
           in (if v < 0 then ''-'' else '''') @ dec_digits (n div 10 ^ p) @ ''.''
              @ fixed_digits p (n mod 10 ^ p))
      | PInf \<Rightarrow> ''inf''
      | NInf \<Rightarrow> ''-inf''
      | NaN \<Rightarrow> ''nan'')"

subsection \<open>JSON values\<close>

datatype json =
    JNull | JBool bool | JInt int | JFloat pyfloat | JStr ustring
  | JList "json list" | JDict "(ustring \<times> json) list"

text \<open>Truth value of an object, as \<open>or\<close> tests it.\<close>

fun truthy :: "json \<Rightarrow> bool" where
  "truthy JNull = False"
| "truthy (JBool b) = b"
| "truthy (JInt n) = (n \<noteq> 0)"
| "truthy (JFloat x) = (x \<noteq> Fin 0)"
| "truthy (JStr s) = (s \<noteq> [])"
| "truthy (JList xs) = (xs \<noteq> [])"
| "truthy (JDict d) = (d \<noteq> [])"

text \<open>\<open>body.get(key)\<close>: only a dict has the method.\<close>

fun dict_get :: "json \<Rightarrow> ustring \<Rightarrow> pyexn + json" where
  "dict_get (JDict d) k = Inr (case map_of d k of None \<Rightarrow> JNull | Some v \<Rightarrow> v)"
| "dict_get _ k = Inl AttributeError"

section \<open>The program\<close>

subsection \<open>Configuration, exchange client, results\<close>

record config =
  WEBHOOK_TOKEN :: "ustring option"
  SYMBOL :: string
  BASE_ASSET :: string
  QUOTE_ASSET :: string

text \<open>The outcome of \<open>float(d[key])\<close> on a record of the exchange.\<close>

datatype field = Missing | Unparsable | Number pyfloat

definition to_float :: "field \<Rightarrow> pyexn + pyfloat" where
  "to_float f = (case f of Missing \<Rightarrow> Inl KeyError | Unparsable \<Rightarrow> Inl ValueError | Number x \<Rightarrow> Inr x)"

record symbol_filter =
  filterType :: "string option"
  stepSize :: field
  minQty :: field
  minNotional :: field

datatype order_side = SIDE_BUY | SIDE_SELL

datatype order_type = ORDER_TYPE_MARKET

datatype order_size = QuoteOrderQty pyfloat | Quantity pyfloat

record order_params =
  order_symbol :: string
  order_side :: order_side
  order_type :: order_type
  order_size :: order_size

record order =
  order_executedQty :: "string option"
  order_side_text :: "string option"
  order_status :: "string option"
  order_fills :: "string option list"

text \<open>
  The exchange client: what each of its three methods returns or raises.  A symbol that is
  not found (or an empty record) is \<open>None\<close>; \<open>get_asset_balance\<close> gives the \<open>free\<close> field
  of the balance, or \<open>None\<close> for an unknown asset; a fill of an order is its \<open>price\<close>, if it
  has one.
\<close>

record exchange =
  get_symbol_info :: "string \<Rightarrow> pyexn + symbol_filter list option"
  get_asset_balance :: "string \<Rightarrow> pyexn + field option"
  create_order :: "order_params \<Rightarrow> pyexn + order"

datatype call = Get_symbol_info string | Get_asset_balance string | Create_order order_params

datatype detail =
    Invalid_JSON
  | Ungueltiger_Token
  | Erwarte_buy_oder_sell
  | Symbol_nicht_gefunden string
  | Guthaben_zu_gering_minNotional pyfloat pyfloat
  | Guthaben_zu_gering pyfloat
  | Kein_LOT_SIZE_Filter
  | Zu_wenig string pyfloat pyfloat
  | Binance_Error pyexn
  | Server_error pyexn

datatype raised = HTTPException nat detail | PyExn pyexn

record response =
  resp_status :: string
  resp_action :: ustring
  resp_symbol :: string
  resp_executedQty :: "string option"
  resp_side :: "string option"
  resp_orderStatus :: "string option"
  resp_avgPrice :: "string option"

subsection \<open>Helper functions (lines 24--50)\<close>

definition truncate :: "pyfloat \<Rightarrow> nat \<Rightarrow> pyexn + pyfloat" where
  "truncate number decimals =
     (let factor = (10 :: int) ^ decimals
      in case float_of_int factor of
           Inl e \<Rightarrow> Inl e
         | Inr ff \<Rightarrow>
             (case math_floor (float_mul number ff) of
                Inl e \<Rightarrow> Inl e
              | Inr n \<Rightarrow> int_truediv n factor))"

definition round_step_size :: "pyfloat \<Rightarrow> pyfloat \<Rightarrow> pyexn + pyfloat" where
  "round_step_size quantity step_size =
     (case float_truediv quantity step_size of
        Inl e \<Rightarrow> Inl e
      | Inr t \<Rightarrow>
          (case math_floor t of
             Inl e \<Rightarrow> Inl e
           | Inr n \<Rightarrow>
               (case float_of_int n of
                  Inl e \<Rightarrow> Inl e
                | Inr nf \<Rightarrow> Inr (float_mul nf step_size))))"

text \<open>The loop over the filters of a symbol (lines 40--48).\<close>

fun filters_loop ::
  "symbol_filter list \<Rightarrow> pyfloat option \<times> pyfloat option \<times> pyfloat option
     \<Rightarrow> pyexn + (pyfloat option \<times> pyfloat option \<times> pyfloat option)" where
  "filters_loop [] acc = Inr acc"
| "filters_loop (f # fs) (step_size, min_qty, min_notional) =
     (case (if filterType f = Some ''LOT_SIZE''
            then (case to_float (stepSize f) of
                    Inl e \<Rightarrow> Inl e
                  | Inr s \<Rightarrow>
                      (case to_float (minQty f) of
                         Inl e \<Rightarrow> Inl e
                       | Inr q \<Rightarrow> Inr (Some s, Some q)))
            else Inr (step_size, min_qty)) of
        Inl e \<Rightarrow> Inl e
      | Inr (s, q) \<Rightarrow>
          (case (if filterType f = Some ''MIN_NOTIONAL'' \<or> filterType f = Some ''NOTIONAL''
                 then (case minNotional f of
                         Missing \<Rightarrow> Inr min_notional
                       | fld \<Rightarrow> (case to_float fld of Inl e \<Rightarrow> Inl e | Inr n \<Rightarrow> Inr (Some n)))
                 else Inr min_notional) of
             Inl e \<Rightarrow> Inl e
           | Inr n \<Rightarrow> filters_loop fs (s, q, n)))"

definition get_symbol_filters ::
  "exchange \<Rightarrow> string \<Rightarrow> raised + (pyfloat option \<times> pyfloat option \<times> pyfloat option)" where
  "get_symbol_filters client symbol =
     (case get_symbol_info client symbol of
        Inl e \<Rightarrow> Inl (PyExn e)
      | Inr None \<Rightarrow> Inl (HTTPException 400 (Symbol_nicht_gefunden symbol))
      | Inr (Some filters) \<Rightarrow>
          (case filters_loop filters (None, None, None) of
             Inl e \<Rightarrow> Inl (PyExn e)
           | Inr r \<Rightarrow> Inr r))"

subsection \<open>The webhook (lines 61--147)\<close>

text \<open>The optional token check (lines 69--71).\<close>

definition check_token :: "config \<Rightarrow> json \<Rightarrow> raised + unit" where
  "check_token cfg body =
     (case WEBHOOK_TOKEN cfg of
        None \<Rightarrow> Inr ()
      | Some tok \<Rightarrow>
          if tok = [] then Inr ()
          else (case dict_get body (ustr ''token'') of
                  Inl e \<Rightarrow> Inl (PyExn e)
                | Inr v \<Rightarrow> if v \<noteq> JStr tok then Inl (HTTPException 401 Ungueltiger_Token) else Inr ()))"

text \<open>
  Line 74: \<open>(body.get("message") or body.get("action") or "").strip().lower()\<close>.  Only a
  \<open>str\<close> has \<open>strip\<close>.
\<close>

definition action_text :: "json \<Rightarrow> raised + ustring" where
  "action_text body =
     (case dict_get body (ustr ''message'') of
        Inl e \<Rightarrow> Inl (PyExn e)
      | Inr m \<Rightarrow>
          (case (if truthy m then Inr m
                 else (case dict_get body (ustr ''action'') of
                         Inl e \<Rightarrow> Inl e
                       | Inr a \<Rightarrow> Inr (if truthy a then a else JStr []))) of
             Inl e \<Rightarrow> Inl (PyExn e)
           | Inr (JStr s) \<Rightarrow> Inr (str_lower (str_strip s))
           | Inr _ \<Rightarrow> Inl (PyExn AttributeError)))"

text \<open>Lines 113--114: the number of decimals kept, read off the step size.\<close>

definition decimal_places_of :: "pyfloat \<Rightarrow> pyexn + nat" where
  "decimal_places_of step_size =
     (let step_str = str_rstrip CHR ''0'' (format_f 10 step_size)
      in if CHR ''.'' \<in> set step_str
         then (case py_index (str_split CHR ''.'' step_str) 1 of
                 Inl e \<Rightarrow> Inl e
               | Inr digits \<Rightarrow> Inr (length digits))
         else Inr 0)"

text \<open>The \<open>except\<close> clauses of the handler (lines 141--147).\<close>

fun except_clauses :: "raised \<Rightarrow> raised" where
  "except_clauses (PyExn (BinanceAPIException m)) = HTTPException 400 (Binance_Error (BinanceAPIException m))"
| "except_clauses (PyExn (BinanceOrderException m)) = HTTPException 400 (Binance_Error (BinanceOrderException m))"
| "except_clauses (HTTPException c d) = HTTPException c d"
| "except_clauses (PyExn e) = HTTPException 500 (Server_error e)"

text \<open>The order feedback returned to the caller (lines 131--139).\<close>

definition order_feedback :: "config \<Rightarrow> ustring \<Rightarrow> order \<Rightarrow> raised + response" where
  "order_feedback cfg text ord =
     (case (case order_fills ord of
              [] \<Rightarrow> Inr None
            | fill # _ \<Rightarrow> (case fill of None \<Rightarrow> Inl KeyError | Some p \<Rightarrow> Inr (Some p))) of
        Inl e \<Rightarrow> Inl (PyExn e)
      | Inr avg \<Rightarrow>
          Inr \<lparr> resp_status = ''ok'', resp_action = text, resp_symbol = SYMBOL cfg,
                resp_executedQty = order_executedQty ord, resp_side = order_side_text ord,
                resp_orderStatus = order_status ord, resp_avgPrice = avg \<rparr>)"

text \<open>Sizing of a buy order (lines 84--95), from the balance record read.\<close>

definition buy_quote_qty :: "field option \<Rightarrow> pyfloat option \<Rightarrow> raised + pyfloat" where
  "buy_quote_qty usdc min_notional =
     (case usdc of
        None \<Rightarrow> Inl (PyExn TypeError)
      | Some fld \<Rightarrow>
          (case to_float fld of
             Inl e \<Rightarrow> Inl (PyExn e)
           | Inr usdc_free \<Rightarrow>
               (case truncate (float_mul usdc_free (round_double (98 / 100))) 2 of
                  Inl e \<Rightarrow> Inl (PyExn e)
                | Inr quote_qty \<Rightarrow>
                    if (case min_notional of None \<Rightarrow> False | Some mn \<Rightarrow> float_lt quote_qty mn)
                    then Inl (HTTPException 400
                               (Guthaben_zu_gering_minNotional quote_qty (the min_notional)))
                    else if float_lt_int quote_qty 5
                    then Inl (HTTPException 400 (Guthaben_zu_gering usdc_free))
                    else Inr quote_qty)))"

text \<open>Sizing of a sell order (lines 109--121), from the balance record read.\<close>

definition sell_qty :: "config \<Rightarrow> field option \<Rightarrow> pyfloat \<Rightarrow> pyfloat \<Rightarrow> raised + pyfloat" where
  "sell_qty cfg eth step_size min_qty =
     (case eth of
        None \<Rightarrow> Inl (PyExn TypeError)
      | Some fld \<Rightarrow>
          (case to_float fld of
             Inl e \<Rightarrow> Inl (PyExn e)
           | Inr raw_qty \<Rightarrow>
               (case round_step_size raw_qty step_size of
                  Inl e \<Rightarrow> Inl (PyExn e)
                | Inr stepped \<Rightarrow>
                    (case decimal_places_of step_size of
                       Inl e \<Rightarrow> Inl (PyExn e)
                     | Inr decimals \<Rightarrow>
                         (case py_round stepped decimals of
                            Inl e \<Rightarrow> Inl (PyExn e)
                          | Inr qty \<Rightarrow>
                              if float_lt qty min_qty
                              then Inl (HTTPException 400 (Zu_wenig (BASE_ASSET cfg) qty min_qty))
                              else Inr qty)))))"

text \<open>
  The body of the \<open>try\<close> block (lines 81--139), with the calls made to the exchange in
  the order they are made.
\<close>

definition submit ::
  "config \<Rightarrow> exchange \<Rightarrow> ustring \<Rightarrow> order_params \<Rightarrow> (raised + response) \<times> call list" where
  "submit cfg client text params =
     (case create_order client params of
        Inl e \<Rightarrow> (Inl (PyExn e), [Create_order params])
      | Inr ord \<Rightarrow> (order_feedback cfg text ord, [Create_order params]))"

definition buy_branch ::
  "config \<Rightarrow> exchange \<Rightarrow> pyfloat option \<Rightarrow> (raised + response) \<times> call list" where
  "buy_branch cfg client min_notional =
     (case get_asset_balance client (QUOTE_ASSET cfg) of
        Inl e \<Rightarrow> (Inl (PyExn e), [Get_asset_balance (QUOTE_ASSET cfg)])
      | Inr usdc \<Rightarrow>
          (case buy_quote_qty usdc min_notional of
             Inl r \<Rightarrow> (Inl r, [Get_asset_balance (QUOTE_ASSET cfg)])
           | Inr quote_qty \<Rightarrow>
               (let (res, calls) =
                      submit cfg client (ustr ''buy'')
                        \<lparr> order_symbol = SYMBOL cfg, order_side = SIDE_BUY,
                          order_type = ORDER_TYPE_MARKET, order_size = QuoteOrderQty quote_qty \<rparr>
                in (res, Get_asset_balance (QUOTE_ASSET cfg) # calls))))"

definition sell_branch ::
  "config \<Rightarrow> exchange \<Rightarrow> pyfloat option \<Rightarrow> pyfloat option \<Rightarrow> (raised + response) \<times> call list" where
  "sell_branch cfg client step_size min_qty =
     (if step_size = None \<or> min_qty = None
      then (Inl (HTTPException 400 Kein_LOT_SIZE_Filter), [])
      else (case get_asset_balance client (BASE_ASSET cfg) of
              Inl e \<Rightarrow> (Inl (PyExn e), [Get_asset_balance (BASE_ASSET cfg)])
            | Inr eth \<Rightarrow>
                (case sell_qty cfg eth (the step_size) (the min_qty) of
                   Inl r \<Rightarrow> (Inl r, [Get_asset_balance (BASE_ASSET cfg)])
                 | Inr qty \<Rightarrow>
                     (let (res, calls) =
                            submit cfg client (ustr ''sell'')
                              \<lparr> order_symbol = SYMBOL cfg, order_side = SIDE_SELL,
                                order_type = ORDER_TYPE_MARKET, order_size = Quantity qty \<rparr>
                      in (res, Get_asset_balance (BASE_ASSET cfg) # calls)))))"

text \<open>
  The handler.  The request body is \<open>None\<close> when it is not valid JSON.  The result is the
  response or what the handler raises, with the calls made to the exchange.
\<close>

definition webhook ::
  "config \<Rightarrow> exchange \<Rightarrow> json option \<Rightarrow> (raised + response) \<times> call list" where
  "webhook cfg client request =
     (case request of
        None \<Rightarrow> (Inl (HTTPException 400 Invalid_JSON), [])
      | Some body \<Rightarrow>
          (case check_token cfg body of
             Inl r \<Rightarrow> (Inl r, [])
           | Inr _ \<Rightarrow>
               (case action_text body of
                  Inl r \<Rightarrow> (Inl r, [])
                | Inr text \<Rightarrow>
                    if text \<noteq> (ustr ''buy'') \<and> text \<noteq> (ustr ''sell'')
                    then (Inl (HTTPException 400 Erwarte_buy_oder_sell), [])
                    else (case get_symbol_filters client (SYMBOL cfg) of
                            Inl r \<Rightarrow> (Inl r, [Get_symbol_info (SYMBOL cfg)])
                          | Inr (step_size, min_qty, min_notional) \<Rightarrow>
                              (let (res, calls) =
                                     (if text = (ustr ''buy'') then buy_branch cfg client min_notional
                                      else sell_branch cfg client step_size min_qty)
                               in (case res of
                                     Inl r \<Rightarrow> Inl (except_clauses r)
                                   | Inr ok \<Rightarrow> Inr ok,
                                   Get_symbol_info (SYMBOL cfg) # calls))))))"

section \<open>Auxiliary definitions\<close>

text \<open>The rounded value of a positive number, before the overflow test.\<close>

definition rd_pos :: "real \<Rightarrow> real" where
  "rd_pos a = (let e = max (ilog2 a - 52) (- 1074) in of_int (round_half_even (a / 2 powi e)) * 2 powi e)"

text \<open>
  The rejections of a client's input: malformed payload, unauthorized, unrecognized action,
  unknown pair, missing lot-size filter, insufficient balance, insufficient quantity.
\<close>

fun is_rejection :: "raised \<Rightarrow> bool" where
  "is_rejection (HTTPException c Invalid_JSON) = True"
| "is_rejection (HTTPException c Ungueltiger_Token) = True"
| "is_rejection (HTTPException c Erwarte_buy_oder_sell) = True"
| "is_rejection (HTTPException c (Symbol_nicht_gefunden s)) = True"
| "is_rejection (HTTPException c Kein_LOT_SIZE_Filter) = True"
| "is_rejection (HTTPException c (Guthaben_zu_gering_minNotional q m)) = True"
| "is_rejection (HTTPException c (Guthaben_zu_gering b)) = True"
| "is_rejection (HTTPException c (Zu_wenig a q m)) = True"
| "is_rejection _ = False"

text \<open>The two rejections raised before the exchange is contacted.\<close>

fun early_detail :: "raised \<Rightarrow> bool" where
  "early_detail (HTTPException c Ungueltiger_Token) = True"
| "early_detail (HTTPException c Erwarte_buy_oder_sell) = True"
| "early_detail _ = False"

text \<open>Example configurations and an exchange that knows no symbol.\<close>

definition example_config :: config where
  "example_config = \<lparr> WEBHOOK_TOKEN = None, SYMBOL = ''ETHUSDC'', BASE_ASSET = ''ETH'',
     QUOTE_ASSET = ''USDC'' \<rparr>"

definition secured_config :: config where
  "secured_config = example_config \<lparr> WEBHOOK_TOKEN := Some (ustr ''s3cret'') \<rparr>"

definition no_exchange :: exchange where
  "no_exchange = \<lparr> get_symbol_info = (\<lambda>s. Inr None), get_asset_balance = (\<lambda>a. Inr None),
     create_order = (\<lambda>p. Inl (OtherException ''unreachable'')) \<rparr>"

text \<open>
  The action value as the specification words it: the value of the first accepted field
  name that is present and non-empty (that \<open>or\<close> takes as true), the empty string when
  there is none; and the normalization of a string.
\<close>

definition accepted_fields :: "ustring list" where
  "accepted_fields = [ustr ''message'', ustr ''action'']"

definition first_nonempty :: "(ustring \<times> json) list \<Rightarrow> json" where
  "first_nonempty d =
     (case filter truthy (List.map_filter (map_of d) accepted_fields) of
        [] \<Rightarrow> JStr []
      | v # _ \<Rightarrow> v)"

definition normalized :: "ustring \<Rightarrow> ustring" where
  "normalized s = str_lower (str_strip s)"

text \<open>An exchange whose lot-size filter reports a step size of zero.\<close>

definition zero_step_exchange :: exchange where
  "zero_step_exchange =
     \<lparr> get_symbol_info = (\<lambda>s. Inr (Some [\<lparr> filterType = Some ''LOT_SIZE'',
            stepSize = Number (Fin 0), minQty = Number (Fin (1 / 100)), minNotional = Missing \<rparr>])),
       get_asset_balance = (\<lambda>a. Inr (Some (Number (Fin 1)))),
       create_order = (\<lambda>p. Inl (OtherException ''unreachable'')) \<rparr>"

text \<open>An exchange whose symbol has no filters.\<close>

definition no_lot_size_exchange :: exchange where
  "no_lot_size_exchange =
     \<lparr> get_symbol_info = (\<lambda>s. Inr (Some [])), get_asset_balance = (\<lambda>a. Inr None),
       create_order = (\<lambda>p. Inl (OtherException ''unreachable'')) \<rparr>"



text \<open>The fractional digits that \<open>decimal_places_of\<close> counts.\<close>

definition kept_digits :: "real \<Rightarrow> string" where
  "kept_digits v =
     str_rstrip CHR ''0'' (fixed_digits 10 (nat (round_half_even (\<bar>v\<bar> * 10 ^ 10)) mod 10 ^ 10))"

(*DEFS*)

section \<open>String literals\<close>

lemma ustr_eq_iff [simp]: "ustr a = ustr b \<longleftrightarrow> a = b"
  unfolding ustr_def by (rule inj_map_eq_map) (rule inj_of_char)

lemma ustr_Nil [simp]: "ustr [] = []"
  by (simp add: ustr_def)

lemma ustr_eq_Nil [simp]: "ustr a = [] \<longleftrightarrow> a = []"
  by (simp add: ustr_def)

text \<open>The facts that evaluate line 74 on a literal payload.\<close>

lemmas text_eval =
  action_text_def str_strip_def str_lower_def isspace_def lower_cp_def ustr_def

section \<open>Rounding to binary64\<close>

lemma ilog2_ge1:
  assumes "1 \<le> x"
  shows "2 powi (ilog2 x) \<le> x \<and> x < 2 powi (ilog2 x + 1)"
proof -
  define n where "n = nat \<lfloor>x\<rfloor>"
  define fl where "fl = floorlog 2 n"
  have n1: "1 \<le> n" using assms by (simp add: n_def le_nat_iff le_floor_iff)
  have b: "2 ^ (fl - 1) \<le> n \<and> n < 2 ^ fl"
    unfolding fl_def using floorlog_bounds[of n 2] n1 by simp
  have fl1: "1 \<le> fl" using b n1 by (cases fl) auto
  have k: "ilog2 x = int fl - 1" using assms by (simp add: ilog2_def n_def fl_def)
  have nx: "real n \<le> x" "x < real n + 1"
    using assms by (simp_all add: n_def of_nat_nat)
  have p1: "(2::real) powi (int fl - 1) = 2 ^ (fl - 1)"
    using fl1 by (simp add: power_int_def nat_diff_distrib of_nat_diff)
  have p2: "(2::real) powi (int fl - 1 + 1) = 2 ^ fl" by simp
  have "(2::real) ^ (fl - 1) \<le> real n"
    using b by (metis of_nat_le_iff of_nat_numeral of_nat_power)
  moreover have "real n + 1 \<le> 2 ^ fl"
  proof -
    have "n + 1 \<le> 2 ^ fl" using b by simp
    then have "real (n + 1) \<le> real (2 ^ fl)" by (simp only: of_nat_le_iff)
    then show ?thesis by simp
  qed
  ultimately show ?thesis using nx unfolding k p1 p2 by linarith
qed

lemma ilog2_lt1:
  assumes "0 < x" "x < 1"
  shows "2 powi (ilog2 x) \<le> x \<and> x < 2 powi (ilog2 x + 1)"
proof -
  define c where "c = \<lceil>1 / x\<rceil>"
  define n where "n = nat (c - 1)"
  define fl where "fl = floorlog 2 n"
  have inv: "1 < 1 / x" using assms by simp
  have c2: "2 \<le> c" unfolding c_def using inv by linarith
  have n1: "1 \<le> n" using c2 by (simp add: n_def)
  have b: "2 ^ (fl - 1) \<le> n \<and> n < 2 ^ fl"
    unfolding fl_def using floorlog_bounds[of n 2] n1 by simp
  have fl1: "1 \<le> fl" using b n1 by (cases fl) auto
  have k: "ilog2 x = - int fl" using assms by (simp add: ilog2_def n_def fl_def c_def)
  have cn: "of_int c = real n + 1" using c2 by (simp add: n_def)
  have cx: "real n < 1 / x" "1 / x \<le> real n + 1"
    using cn unfolding c_def by linarith+
  have lo: "(2::real) ^ (fl - 1) \<le> real n"
    using b by (metis of_nat_le_iff of_nat_numeral of_nat_power)
  have hi: "real n + 1 \<le> 2 ^ fl"
  proof -
    have "n + 1 \<le> 2 ^ fl" using b by simp
    then have "real (n + 1) \<le> real (2 ^ fl)" by (simp only: of_nat_le_iff)
    then show ?thesis by simp
  qed
  have p1: "(2::real) powi (- int fl) = 1 / 2 ^ fl"
    by (simp add: power_int_minus_divide)
  have p2: "(2::real) powi (- int fl + 1) = 1 / 2 ^ (fl - 1)"
  proof -
    have e: "- int fl + 1 = - int (fl - 1)" using fl1 by simp
    have "(2::real) powi (- int (fl - 1)) = 1 / 2 ^ (fl - 1)"
      by (simp only: power_int_minus_divide power_int_of_nat)
    then show ?thesis by (simp only: e)
  qed
  have A: "1 / 2 ^ fl \<le> x"
  proof -
    have "1 / x \<le> 2 ^ fl" using cx hi by linarith
    then have "1 \<le> 2 ^ fl * x" using assms by (simp add: field_simps)
    then show ?thesis by (simp add: field_simps)
  qed
  have B: "x < 1 / 2 ^ (fl - 1)"
  proof -
    have "2 ^ (fl - 1) < 1 / x" using cx lo by linarith
    then have "2 ^ (fl - 1) * x < 1" using assms by (simp add: field_simps)
    then show ?thesis by (simp add: field_simps)
  qed
  show ?thesis unfolding k p1 p2 using A B by simp
qed

lemma ilog2_bounds:
  "0 < x \<Longrightarrow> 2 powi (ilog2 x) \<le> x \<and> x < 2 powi (ilog2 x + 1)"
  using ilog2_ge1 [of x] ilog2_lt1 [of x] by (cases "1 \<le> x") auto

lemma powi2_less_iff: "(2::real) powi a < 2 powi b \<longleftrightarrow> a < b"
  by (metis linorder_not_less one_less_numeral_iff power_int_increasing power_int_strict_increasing semiring_norm(76) order_less_imp_le)

lemma powi2_le_iff: "(2::real) powi a \<le> 2 powi b \<longleftrightarrow> a \<le> b"
  using powi2_less_iff [of b a] by (auto simp: not_less [symmetric])

lemma ilog2_eqI:
  assumes "2 powi k \<le> x" "x < 2 powi (k + 1)"
  shows "ilog2 x = k"
proof -
  have x0: "0 < x" using assms(1) by (meson less_le_trans zero_less_numeral zero_less_power_int)
  note b = ilog2_bounds [OF x0]
  have "(2::real) powi k < 2 powi (ilog2 x + 1)" using assms b by linarith
  moreover have "(2::real) powi (ilog2 x) < 2 powi (k + 1)" using assms b by linarith
  ultimately show ?thesis unfolding powi2_less_iff by linarith
qed

lemma round_half_even_err: "\<bar>of_int (round_half_even x) - x\<bar> \<le> 1 / 2"
  unfolding round_half_even_def Let_def by (auto simp: abs_le_iff)

lemma round_half_even_of_int [simp]: "round_half_even (of_int n) = n"
  by (simp add: round_half_even_def)

lemma round_half_even_nonneg: "0 \<le> x \<Longrightarrow> 0 \<le> round_half_even x"
  unfolding round_half_even_def Let_def by auto

lemma round_half_even_mono: "x \<le> y \<Longrightarrow> round_half_even x \<le> round_half_even y"
proof -
  assume xy: "x \<le> y"
  have fm: "\<lfloor>x\<rfloor> \<le> \<lfloor>y\<rfloor>" using xy by (rule floor_mono)
  show ?thesis
  proof (cases "\<lfloor>x\<rfloor> = \<lfloor>y\<rfloor>")
    case True
    then show ?thesis using xy unfolding round_half_even_def Let_def by auto
  next
    case False
    then have "\<lfloor>x\<rfloor> + 1 \<le> \<lfloor>y\<rfloor>" using fm by linarith
    moreover have "round_half_even x \<le> \<lfloor>x\<rfloor> + 1" unfolding round_half_even_def Let_def by auto
    moreover have "\<lfloor>y\<rfloor> \<le> round_half_even y" unfolding round_half_even_def Let_def by auto
    ultimately show ?thesis by linarith
  qed
qed

lemma round_double_pos:
  "0 < x \<Longrightarrow> round_double x = (if 2 ^ 1024 \<le> rd_pos x then PInf else Fin (rd_pos x))"
  by (simp add: round_double_def rd_pos_def Let_def)

lemma round_double_neg:
  "x < 0 \<Longrightarrow> round_double x = (if 2 ^ 1024 \<le> rd_pos (- x) then NInf else Fin (- rd_pos (- x)))"
  by (simp add: round_double_def rd_pos_def Let_def)

lemma rd_pos_err:
  assumes "0 < a"
  shows "\<bar>rd_pos a - a\<bar> \<le> 2 powi (max (ilog2 a - 52) (- 1074) - 1)"
proof -
  define e where "e = max (ilog2 a - 52) (- 1074)"
  define m where "m = round_half_even (a / 2 powi e)"
  have p: "(0::real) < 2 powi e" by simp
  have "\<bar>of_int m - a / 2 powi e\<bar> \<le> 1 / 2" unfolding m_def by (rule round_half_even_err)
  then have "\<bar>of_int m - a / 2 powi e\<bar> * 2 powi e \<le> 1 / 2 * 2 powi e"
    using p by (simp only: mult_le_cancel_right_pos)
  moreover have "\<bar>of_int m - a / 2 powi e\<bar> * 2 powi e = \<bar>of_int m * 2 powi e - a\<bar>"
  proof -
    have "\<bar>of_int m - a / 2 powi e\<bar> * 2 powi e = \<bar>(of_int m - a / 2 powi e) * 2 powi e\<bar>"
      using p by (simp add: abs_mult)
    also have "(of_int m - a / 2 powi e) * 2 powi e = of_int m * 2 powi e - a"
      using p by (simp add: field_simps)
    finally show ?thesis .
  qed
  moreover have "1 / 2 * (2::real) powi e = 2 powi (e - 1)"
    by (simp add: power_int_diff)
  ultimately have "\<bar>of_int m * 2 powi e - a\<bar> \<le> 2 powi (e - 1)" by simp
  then show ?thesis by (simp add: rd_pos_def Let_def e_def m_def)
qed

lemma rd_pos_nonneg: "0 < a \<Longrightarrow> 0 \<le> rd_pos a"
  by (simp add: rd_pos_def Let_def round_half_even_nonneg)

text \<open>Normal range: a relative error of at most \<open>2 ^ - 53\<close>.\<close>

lemma rd_pos_rel:
  assumes "2 powi (- 1022) \<le> a"
  shows "\<bar>rd_pos a - a\<bar> \<le> a / 2 ^ 53"
proof -
  have a0: "0 < a" using assms by (meson less_le_trans zero_less_numeral zero_less_power_int)
  note b = ilog2_bounds [OF a0]
  have "(2::real) powi (- 1022) < 2 powi (ilog2 a + 1)" using assms b by linarith
  then have k: "- 1022 \<le> ilog2 a" unfolding powi2_less_iff by linarith
  then have e: "max (ilog2 a - 52) (- 1074) = ilog2 a - 52" by simp
  have "(2::real) powi (ilog2 a - 52 - 1) = 2 powi (ilog2 a) / 2 ^ 53"
    by (simp add: power_int_diff)
  also have "\<dots> \<le> a / 2 ^ 53" using b by (simp add: divide_right_mono)
  finally show ?thesis using rd_pos_err [OF a0] unfolding e by linarith
qed

text \<open>Subnormal range: an absolute error of at most \<open>2 ^ - 1075\<close>.\<close>

lemma rd_pos_abs:
  assumes "0 < a" "a < 2 powi (- 1022)"
  shows "\<bar>rd_pos a - a\<bar> \<le> 2 powi (- 1075)"
proof -
  note b = ilog2_bounds [OF assms(1)]
  have "(2::real) powi (ilog2 a) < 2 powi (- 1022)" using assms b by linarith
  then have k: "ilog2 a < - 1022" unfolding powi2_less_iff by linarith
  then have e: "max (ilog2 a - 52) (- 1074) = - 1074" by simp
  show ?thesis using rd_pos_err [OF assms(1)] unfolding e by simp
qed

lemma rd_pos_lt_overflow:
  assumes "0 < a" "a \<le> 2 ^ 1023"
  shows "rd_pos a < 2 ^ 1024"
proof (cases "2 powi (- 1022) \<le> a")
  case True
  have "a / 2 ^ 53 < a" using assms(1) by (simp add: field_simps)
  then have "rd_pos a < a + a" using rd_pos_rel [OF True] by linarith
  also have "\<dots> \<le> 2 ^ 1023 + 2 ^ 1023" using assms(2) by linarith
  also have "\<dots> = (2::real) ^ 1024" by simp
  finally show ?thesis .
next
  case False
  then have "a < 2 powi (- 1022)" by simp
  from rd_pos_abs [OF assms(1) this] have "rd_pos a \<le> a + 2 powi (- 1075)" by linarith
  also have "\<dots> \<le> 2 ^ 1023 + 2 powi (- 1075)" using assms(2) by linarith
  also have "\<dots> < 2 ^ 1023 + (2::real) ^ 1023"
  proof -
    have "(2::real) powi (- 1075) < 2 powi 1023" unfolding powi2_less_iff by simp
    then show ?thesis by simp
  qed
  also have "\<dots> = (2::real) ^ 1024" by simp
  finally show ?thesis .
qed

lemma rd_pos_bound:
  assumes "0 < a"
  shows "\<bar>rd_pos a - a\<bar> \<le> max (a / 2 ^ 53) (2 powi (- 1075))"
proof (cases "2 powi (- 1022) \<le> a")
  case True
  from rd_pos_rel [OF True] show ?thesis by (rule order_trans) (rule max.cobounded1)
next
  case False
  then have "a < 2 powi (- 1022)" by simp
  from rd_pos_abs [OF assms this] show ?thesis by (rule order_trans) (rule max.cobounded2)
qed

lemma round_double_finite:
  assumes "\<bar>x\<bar> \<le> 2 ^ 1023"
  obtains y where "round_double x = Fin y"
    and "\<bar>y - x\<bar> \<le> max (\<bar>x\<bar> / 2 ^ 53) (2 powi (- 1075))"
    and "0 \<le> x \<Longrightarrow> 0 \<le> y" and "x \<le> 0 \<Longrightarrow> y \<le> 0"
proof (cases "x = 0")
  case True
  show ?thesis
  proof (rule that [of 0])
    show "round_double x = Fin 0" using True by (simp add: round_double_def)
  qed (use True in simp_all)
next
  case False
  show ?thesis
  proof (cases "0 < x")
    case True
    have lt: "rd_pos x < 2 ^ 1024" using rd_pos_lt_overflow [OF True] assms by simp
    show ?thesis
    proof (rule that [of "rd_pos x"])
      show "round_double x = Fin (rd_pos x)" using round_double_pos [OF True] lt by simp
      show "\<bar>rd_pos x - x\<bar> \<le> max (\<bar>x\<bar> / 2 ^ 53) (2 powi (- 1075))"
        using rd_pos_bound [OF True] True by simp
      show "0 \<le> rd_pos x" using rd_pos_nonneg [OF True] .
      show "rd_pos x \<le> 0" if "x \<le> 0" using that True by simp
    qed
  next
    case neg: False
    then have n: "x < 0" using False by simp
    then have p: "0 < - x" by simp
    have lt: "rd_pos (- x) < 2 ^ 1024" using rd_pos_lt_overflow [OF p] assms by simp
    show ?thesis
    proof (rule that [of "- rd_pos (- x)"])
      show "round_double x = Fin (- rd_pos (- x))" using round_double_neg [OF n] lt by simp
      show "\<bar>- rd_pos (- x) - x\<bar> \<le> max (\<bar>x\<bar> / 2 ^ 53) (2 powi (- 1075))"
      proof -
        have "\<bar>- rd_pos (- x) - x\<bar> = \<bar>rd_pos (- x) - (- x)\<bar>" by simp
        then show ?thesis using rd_pos_bound [OF p] n by simp
      qed
      show "0 \<le> - rd_pos (- x)" if "0 \<le> x" using that n by simp
      show "- rd_pos (- x) \<le> 0" using rd_pos_nonneg [OF p] by simp
    qed
  qed
qed


subsection \<open>Representable numbers\<close>

lemma powi2_pos: "(0::real) < 2 powi k"
  by simp

lemma powi2_split: "e \<le> k \<Longrightarrow> (2::real) powi k = 2 ^ nat (k - e) * 2 powi e"
proof -
  assume "e \<le> k"
  then have "k = int (nat (k - e)) + e" by simp
  then have "(2::real) powi k = 2 powi (int (nat (k - e)) + e)" by simp
  also have "\<dots> = 2 powi int (nat (k - e)) * 2 powi e" by (rule power_int_add) simp
  finally show ?thesis by (simp only: power_int_of_nat)
qed

lemma is_double_scaled:
  assumes "0 < m" "m < 2 ^ 53" "- 1074 \<le> k" "of_int m * 2 powi k < (2::real) ^ 1024"
  shows "round_double (of_int m * 2 powi k) = Fin (of_int m * 2 powi k)"
proof -
  define x :: real where "x = of_int m * 2 powi k"
  have x0: "0 < x" using assms(1) by (simp add: x_def)
  define j where "j = ilog2 x"
  define e where "e = max (j - 52) (- 1074)"
  note b = ilog2_bounds [OF x0, folded j_def]
  have "real_of_int m < 2 ^ 53"
  proof -
    have "real_of_int m < real_of_int (2 ^ 53)" using assms(2) by (simp only: of_int_less_iff)
    then show ?thesis by simp
  qed
  then have "x < 2 ^ 53 * 2 powi k" unfolding x_def by (simp add: powi2_pos)
  also have "\<dots> = 2 powi (53 + k)" by (simp add: power_int_add)
  finally have "(2::real) powi j < 2 powi (53 + k)" using b by linarith
  then have "j < 53 + k" unfolding powi2_less_iff .
  then have ek: "e \<le> k" using assms(3) by (simp add: e_def)
  have q: "x / 2 powi e = of_int (m * 2 ^ nat (k - e))"
    unfolding x_def powi2_split [OF ek] by simp
  have "rd_pos x = of_int (round_half_even (x / 2 powi e)) * 2 powi e"
    by (simp add: rd_pos_def Let_def e_def j_def)
  also have "\<dots> = of_int (m * 2 ^ nat (k - e)) * 2 powi e"
    unfolding q by (simp only: round_half_even_of_int)
  also have "\<dots> = x" unfolding x_def powi2_split [OF ek] by simp
  finally have r: "rd_pos x = x" .
  have "\<not> 2 ^ 1024 \<le> x" unfolding x_def using assms(4) by (simp only: not_le)
  then have "\<not> 2 ^ 1024 \<le> rd_pos x" unfolding r .
  with round_double_pos [OF x0] have "round_double x = Fin (rd_pos x)" by (simp only: if_False)
  then show ?thesis unfolding r unfolding x_def .
qed

lemma round_double_minus:
  "round_double (- x) =
     (case round_double x of Fin y \<Rightarrow> Fin (- y) | PInf \<Rightarrow> NInf | NInf \<Rightarrow> PInf | NaN \<Rightarrow> NaN)"
proof (cases "x = 0")
  case True
  then show ?thesis by (simp add: round_double_def)
next
  case False
  show ?thesis
  proof (cases "0 < x")
    case True
    then have "- x < 0" by simp
    from round_double_neg [OF this] round_double_pos [OF True] show ?thesis by simp
  next
    case neg: False
    then have n: "x < 0" using False by simp
    then have "0 < - x" by simp
    from round_double_pos [OF this] round_double_neg [OF n] show ?thesis by simp
  qed
qed

lemma nat_is_double:
  assumes "0 \<le> n" "n \<le> 2 ^ 53"
  shows "round_double (of_int n) = Fin (of_int n)"
proof -
  consider "n = 0" | "0 < n" "n < 2 ^ 53" | "n = 2 ^ 53" using assms by linarith
  then show ?thesis
  proof cases
    case 1
    then show ?thesis by (simp add: round_double_def)
  next
    case 2
    have "real_of_int n < real_of_int (2 ^ 53)" using 2 by (simp only: of_int_less_iff)
    then have "real_of_int n * 2 powi 0 < 2 ^ 1024" by simp
    from is_double_scaled [OF 2 _ this] show ?thesis by simp
  next
    case 3
    have "round_double (of_int 1 * 2 powi 53) = Fin (of_int 1 * 2 powi 53)"
      by (rule is_double_scaled) simp_all
    then show ?thesis using 3 by simp
  qed
qed

lemma int_is_double:
  assumes "\<bar>n\<bar> \<le> 2 ^ 53"
  shows "round_double (of_int n) = Fin (of_int n)"
proof (cases "0 \<le> n")
  case True
  then show ?thesis using assms by (intro nat_is_double) simp_all
next
  case False
  then have "0 \<le> - n" "- n \<le> 2 ^ 53" using assms by simp_all
  from nat_is_double [OF this] have "round_double (- of_int (- n)) = Fin (- of_int (- n))"
    unfolding round_double_minus [of "of_int (- n)"] by simp
  then show ?thesis by simp
qed

lemma rd_pos_form:
  assumes "0 < a"
  obtains m e where "rd_pos a = of_int m * 2 powi e" "0 \<le> m" "m \<le> 2 ^ 53" "- 1074 \<le> e"
proof -
  define e where "e = max (ilog2 a - 52) (- 1074)"
  define m where "m = round_half_even (a / 2 powi e)"
  note b = ilog2_bounds [OF assms]
  have "ilog2 a + 1 \<le> 53 + e" by (simp add: e_def)
  then have "(2::real) powi (ilog2 a + 1) \<le> 2 powi (53 + e)" unfolding powi2_le_iff .
  also have "\<dots> = 2 ^ 53 * 2 powi e" by (simp add: power_int_add)
  finally have "a \<le> 2 ^ 53 * 2 powi e" using b by linarith
  then have "a / 2 powi e \<le> 2 ^ 53" by (simp add: field_simps)
  then have "a / 2 powi e \<le> of_int (2 ^ 53)" by simp
  from round_half_even_mono [OF this] have m53: "m \<le> 2 ^ 53"
    unfolding m_def by (simp only: round_half_even_of_int)
  have m0: "0 \<le> m" unfolding m_def using assms by (intro round_half_even_nonneg) simp
  show ?thesis
  proof (rule that [of m e])
    show "rd_pos a = of_int m * 2 powi e" by (simp add: rd_pos_def Let_def e_def m_def)
  qed (use m0 m53 in \<open>simp_all add: e_def\<close>)
qed

lemma scaled_is_double:
  assumes "0 \<le> m" "m \<le> 2 ^ 53" "- 1074 \<le> e" "of_int m * 2 powi e < (2::real) ^ 1024"
  shows "round_double (of_int m * 2 powi e) = Fin (of_int m * 2 powi e)"
proof -
  consider "m = 0" | "0 < m" "m < 2 ^ 53" | "m = 2 ^ 53" using assms by linarith
  then show ?thesis
  proof cases
    case 1
    then show ?thesis by (simp add: round_double_def)
  next
    case 2
    from is_double_scaled [OF 2 assms(3,4)] show ?thesis .
  next
    case 3
    have eq: "real_of_int m * 2 powi e = of_int 1 * 2 powi (e + 53)"
      unfolding 3 by (simp add: power_int_add)
    have "round_double (of_int 1 * 2 powi (e + 53)) = Fin (of_int 1 * 2 powi (e + 53))"
    proof (rule is_double_scaled)
      show "real_of_int 1 * 2 powi (e + 53) < 2 ^ 1024" using assms(4) unfolding eq .
    qed (use assms(3) in simp_all)
    then show ?thesis unfolding eq .
  qed
qed

text \<open>Rounding is idempotent, and the floor of a non-negative float is a float.\<close>

lemma round_double_idem:
  assumes "round_double x = Fin t"
  shows "round_double t = Fin t"
proof -
  have pos: "round_double t = Fin t" if "0 < x" "round_double x = Fin t" for x t
  proof -
    have t: "t = rd_pos x" "rd_pos x < 2 ^ 1024"
      using round_double_pos [OF that(1)] that(2) by (auto split: if_splits)
    note x0 = that(1)
    obtain m e where f: "rd_pos x = of_int m * 2 powi e" "0 \<le> m" "m \<le> 2 ^ 53" "- 1074 \<le> e"
      by (rule rd_pos_form [OF x0])
    from scaled_is_double [OF f(2,3,4)] t f(1) show ?thesis by simp
  qed
  consider "x = 0" | "0 < x" | "x < 0" by linarith
  then show ?thesis
  proof cases
    case 1
    then show ?thesis using assms by (simp add: round_double_def)
  next
    case 2
    from pos [OF 2 assms] show ?thesis .
  next
    case 3
    then have p: "0 < - x" by simp
    have "round_double (- x) = Fin (- t)" unfolding round_double_minus [of x] assms by simp
    from pos [OF p this] have "round_double (- (- t)) = Fin (- (- t))"
      unfolding round_double_minus [of "- t"] by simp
    then show ?thesis by simp
  qed
qed

lemma floor_scaled:
  assumes "e < 0"
  shows "\<lfloor>real_of_int m * 2 powi e\<rfloor> = m div 2 ^ nat (- e)"
proof -
  have "(2::real) powi e = 1 / 2 ^ nat (- e)"
    using assms by (simp add: power_int_def field_simps)
  then have "real_of_int m * 2 powi e = of_int m / of_int (2 ^ nat (- e))" by simp
  then show ?thesis by (simp only: floor_divide_of_int_eq)
qed

lemma floor_double:
  assumes "round_double x = Fin t" "0 \<le> x"
  shows "round_double (of_int \<lfloor>t\<rfloor>) = Fin (of_int \<lfloor>t\<rfloor>)"
proof (cases "x = 0")
  case True
  then show ?thesis using assms by (simp add: round_double_def)
next
  case False
  then have x0: "0 < x" using assms(2) by simp
  have t: "t = rd_pos x" "rd_pos x < 2 ^ 1024"
    using round_double_pos [OF x0] assms(1) by (auto split: if_splits)
  obtain m e where f: "rd_pos x = of_int m * 2 powi e" "0 \<le> m" "m \<le> 2 ^ 53" "- 1074 \<le> e"
    by (rule rd_pos_form [OF x0])
  show ?thesis
  proof (cases "0 \<le> e")
    case True
    have "t = of_int (m * 2 ^ nat e)" using t f(1) True by (simp add: power_int_def)
    then have ft: "of_int \<lfloor>t\<rfloor> = t" by simp
    show ?thesis unfolding ft by (rule round_double_idem [OF assms(1)])
  next
    case False
    then have e: "e < 0" by simp
    have fl: "\<lfloor>t\<rfloor> = m div 2 ^ nat (- e)" unfolding t f(1) by (rule floor_scaled [OF e])
    have "0 \<le> m div 2 ^ nat (- e)" using f(2) by (simp add: pos_imp_zdiv_nonneg_iff)
    moreover have "m div 2 ^ nat (- e) \<le> m" using f(2) by (cases "m = 0") (simp_all add: int_div_le_self)
    ultimately show ?thesis unfolding fl using f(3) by (intro nat_is_double) simp_all
  qed
qed

subsection \<open>Evaluation of \<open>truncate\<close>\<close>

lemma round_double_eval:
  assumes "2 powi k \<le> x" "x < 2 powi (k + 1)"
  shows "round_double x =
     (let e = max (k - 52) (- 1074); y = of_int (round_half_even (x / 2 powi e)) * 2 powi e
      in if 2 ^ 1024 \<le> y then PInf else Fin y)"
proof -
  have x0: "0 < x" using assms(1) by (meson less_le_trans zero_less_numeral zero_less_power_int)
  have k: "ilog2 x = k" using assms by (rule ilog2_eqI)
  show ?thesis using x0 by (simp add: round_double_def k Let_def)
qed

lemma round_double_normal:
  assumes "2 powi (- 1022) \<le> a" "a \<le> 2 ^ 1023"
  obtains y where "round_double a = Fin y" "\<bar>y - a\<bar> \<le> a / 2 ^ 53"
proof -
  have a0: "0 < a" using assms(1) by (meson less_le_trans zero_less_numeral zero_less_power_int)
  have lt: "\<not> 2 ^ 1024 \<le> rd_pos a" using rd_pos_lt_overflow [OF a0 assms(2)] by (simp only: not_le)
  with round_double_pos [OF a0] have "round_double a = Fin (rd_pos a)" by (simp only: if_False)
  then show ?thesis using rd_pos_rel [OF assms(1)] by (rule that)
qed

lemma pow10_is_double:
  assumes "d \<le> 22"
  shows "round_double (10 ^ d) = Fin (10 ^ d)"
proof -
  have "(5::int) ^ d \<le> 5 ^ 22" using assms by (intro power_increasing) simp_all
  then have m: "(5::int) ^ d < 2 ^ 53" by simp
  have "real_of_int (5 ^ d) * 2 powi int d = 5 ^ d * 2 ^ d" by simp
  also have "\<dots> = (10::real) ^ d" by (simp add: power_mult_distrib [symmetric])
  finally have eq: "real_of_int (5 ^ d) * 2 powi int d = 10 ^ d" .
  have "(10::real) ^ d \<le> 10 ^ 22" using assms by (intro power_increasing) simp_all
  then have "(10::real) ^ d < 2 ^ 1024" by simp
  then have "real_of_int (5 ^ d) * 2 powi int d < 2 ^ 1024" unfolding eq .
  from is_double_scaled [OF _ m _ this] show ?thesis unfolding eq by simp
qed

lemma float_of_int_pow10: "d \<le> 22 \<Longrightarrow> float_of_int (10 ^ d) = Inr (Fin (10 ^ d))"
  using pow10_is_double [of d] by (simp add: float_of_int_def)

lemma truncate_unfold:
  assumes "d \<le> 22"
  shows "truncate (Fin x) d =
     (case round_double (x * 10 ^ d) of
        Fin y \<Rightarrow> int_truediv \<lfloor>y\<rfloor> (10 ^ d)
      | NaN \<Rightarrow> Inl ValueError
      | _ \<Rightarrow> Inl OverflowError)"
  using float_of_int_pow10 [OF assms]
  by (simp add: truncate_def Let_def split: pyfloat.splits)


lemma tiny_lt_half: "(2::real) powi (- 1022) < 1 / 2"
proof -
  have "(2::real) powi (- 1022) < 2 powi (- 1)" unfolding powi2_less_iff by simp
  then show ?thesis by simp
qed

lemma truncate_bounds:
  assumes "0 \<le> x" "d \<le> 22" "x * 10 ^ d \<le> 2 ^ 1000"
  obtains y r where
    "float_mul (Fin x) (Fin (10 ^ d)) = Fin y"
    "truncate (Fin x) d = Inr (Fin r)"
    "round_double (of_int \<lfloor>y\<rfloor> / 10 ^ d) = Fin r"
    "\<bar>r - of_int \<lfloor>y\<rfloor> / 10 ^ d\<bar> \<le> (of_int \<lfloor>y\<rfloor> / 10 ^ d) / 2 ^ 53"
    "r \<le> x * (1 + 1 / 2 ^ 53) * (1 + 1 / 2 ^ 53)"
    "0 \<le> y" "0 \<le> r"
proof -
  define U :: real where "U = 1 + 1 / 2 ^ 53"
  have U1: "1 \<le> U" by (simp add: U_def)
  define a where "a = x * 10 ^ d"
  have a0: "0 \<le> a" using assms(1) by (simp add: a_def)
  have a1: "\<bar>a\<bar> \<le> 2 ^ 1023"
  proof -
    have "a \<le> 2 ^ 1000" using assms(3) by (simp add: a_def)
    also have "\<dots> \<le> (2::real) ^ 1023" by (intro power_increasing) simp_all
    finally show ?thesis using a0 by simp
  qed
  obtain y where y: "round_double a = Fin y"
    "\<bar>y - a\<bar> \<le> max (\<bar>a\<bar> / 2 ^ 53) (2 powi (- 1075))" "0 \<le> y"
    using round_double_finite [OF a1] a0 by blast
  define n where "n = \<lfloor>y\<rfloor>"
  have n0: "0 \<le> n" using y(3) by (simp add: n_def)
  have ny: "of_int n \<le> y" by (simp add: n_def)
  define c :: real where "c = of_int n / 10 ^ d"
  have c0: "0 \<le> c" using n0 by (simp add: c_def)
  have p10: "(1::real) \<le> 10 ^ d" by simp
  have cy: "c \<le> y / 10 ^ d" unfolding c_def using ny by (simp add: divide_right_mono)
  have tiny: "(2::real) powi (- 1075) \<le> 2 ^ 1000"
  proof -
    have "(2::real) powi (- 1075) \<le> 2 powi 1000" unfolding powi2_le_iff by simp
    then show ?thesis by simp
  qed
  have ya: "y \<le> 2 ^ 1001"
  proof -
    have "\<bar>a\<bar> / 2 ^ 53 \<le> \<bar>a\<bar>" by (simp add: field_simps)
    then have "max (\<bar>a\<bar> / 2 ^ 53) (2 powi (- 1075)) \<le> 2 ^ 1000"
      using tiny assms(3) a0 by (simp add: a_def)
    then have "y \<le> 2 ^ 1000 + 2 ^ 1000" using y(2) assms(3) by (simp add: a_def)
    then show ?thesis by simp
  qed
  have c1: "\<bar>c\<bar> \<le> 2 ^ 1023"
  proof -
    have "real_of_int n / 10 ^ d \<le> real_of_int n / 1"
      using n0 by (intro divide_left_mono) simp_all
    then have "c \<le> y" using ny by (simp add: c_def)
    also have "\<dots> \<le> 2 ^ 1001" by (rule ya)
    also have "\<dots> \<le> (2::real) ^ 1023" by (intro power_increasing) simp_all
    finally show ?thesis using c0 by simp
  qed
  obtain r where r: "round_double c = Fin r"
    "\<bar>r - c\<bar> \<le> max (\<bar>c\<bar> / 2 ^ 53) (2 powi (- 1075))" "0 \<le> r"
    using round_double_finite [OF c1] c0 by blast
  have tr: "truncate (Fin x) d = Inr (Fin r)"
    unfolding truncate_unfold [OF assms(2)] using y(1) r(1)
    by (simp add: a_def c_def n_def int_truediv_def)
  have bounds: "\<bar>r - c\<bar> \<le> c / 2 ^ 53 \<and> r \<le> x * U * U"
  proof (cases "n = 0")
    case True
    then have "c = 0" by (simp add: c_def)
    then have "r = 0" using r(1) by (simp add: round_double_def)
    then show ?thesis using \<open>c = 0\<close> assms(1) U1 by simp
  next
    case False
    then have "1 \<le> n" using n0 by simp
    then have y1: "1 \<le> y" using ny by linarith
    have an: "2 powi (- 1022) \<le> a"
    proof (rule ccontr)
      assume "\<not> 2 powi (- 1022) \<le> a"
      then have lt: "a < 2 powi (- 1022)" by simp
      have "\<bar>a\<bar> / 2 ^ 53 \<le> \<bar>a\<bar>" by (simp add: field_simps)
      moreover have "(2::real) powi (- 1075) \<le> 2 powi (- 1022)" unfolding powi2_le_iff by simp
      ultimately have "max (\<bar>a\<bar> / 2 ^ 53) (2 powi (- 1075)) \<le> 2 powi (- 1022)"
        using lt a0 by simp
      then have "y \<le> 2 powi (- 1022) + 2 powi (- 1022)" using y(2) lt by linarith
      then show False using y1 tiny_lt_half by linarith
    qed
    obtain y' where y': "round_double a = Fin y'" "\<bar>y' - a\<bar> \<le> a / 2 ^ 53"
      using round_double_normal [OF an] a1 a0 by auto
    have "y' = y" using y' y(1) by simp
    then have "y \<le> a + a / 2 ^ 53" using y'(2) by linarith
    also have "\<dots> = a * U" by (simp add: U_def algebra_simps)
    finally have yU: "y \<le> a * U" .
    have "1 / 10 ^ 22 \<le> 1 / (10::real) ^ d"
      using assms(2) by (intro divide_left_mono power_increasing) simp_all
    moreover have "1 / (10::real) ^ d \<le> c"
      unfolding c_def using \<open>1 \<le> n\<close> by (intro divide_right_mono) simp_all
    moreover have "(2::real) powi (- 1022) \<le> 1 / 10 ^ 22" by (simp add: power_int_minus_divide)
    ultimately have cn: "2 powi (- 1022) \<le> c" by linarith
    obtain r' where r': "round_double c = Fin r'" "\<bar>r' - c\<bar> \<le> c / 2 ^ 53"
      using round_double_normal [OF cn] c1 c0 by auto
    have rr: "\<bar>r - c\<bar> \<le> c / 2 ^ 53" using r' r(1) by simp
    then have "r \<le> c + c / 2 ^ 53" by linarith
    also have "\<dots> = c * U" by (simp add: U_def algebra_simps)
    finally have rcU: "r \<le> c * U" .
    have "y / 10 ^ d \<le> a * U / 10 ^ d" using yU by (simp add: divide_right_mono)
    also have "\<dots> = x * U" by (simp add: a_def)
    finally have "c \<le> x * U" using cy by linarith
    then have "c * U \<le> x * U * U" using U1 by (intro mult_right_mono) simp_all
    then show ?thesis using rr rcU by linarith
  qed
  show ?thesis
  proof (rule that [of y r])
    show "float_mul (Fin x) (Fin (10 ^ d)) = Fin y" using y(1) by (simp add: a_def)
    show "truncate (Fin x) d = Inr (Fin r)" by (rule tr)
    show "round_double (of_int \<lfloor>y\<rfloor> / 10 ^ d) = Fin r" using r(1) by (simp add: c_def n_def)
    show "\<bar>r - of_int \<lfloor>y\<rfloor> / 10 ^ d\<bar> \<le> (of_int \<lfloor>y\<rfloor> / 10 ^ d) / 2 ^ 53"
      using bounds by (simp add: c_def n_def)
    show "r \<le> x * (1 + 1 / 2 ^ 53) * (1 + 1 / 2 ^ 53)" using bounds by (simp add: U_def)
    show "0 \<le> y" by (rule y(3))
    show "0 \<le> r" by (rule r(3))
  qed
qed

lemma ex_below_005_times_100: "round_double (7205759403792793 / 2 ^ 57 * 10 ^ 2) = Fin 5"
  using round_double_eval [of 2 "7205759403792793 / 2 ^ 57 * 10 ^ 2"] by (simp add: round_half_even_def Let_def)

lemma ex_5_div_100: "round_double (real_of_int 5 / real_of_int (10 ^ 2)) = Fin (3602879701896397 / 2 ^ 56)"
  using round_double_eval [of "- 5" "real_of_int 5 / real_of_int (10 ^ 2)"] by (simp add: round_half_even_def Let_def)

lemma ex_below_005_double: "round_double (7205759403792793 / 2 ^ 57) = Fin (7205759403792793 / 2 ^ 57)"
  using round_double_eval [of "- 5" "7205759403792793 / 2 ^ 57"] by (simp add: round_half_even_def Let_def)

lemma ex_057_times_100: "round_double (5134103575202365 / 2 ^ 53 * 10 ^ 2) = Fin (8022036836253695 / 2 ^ 47)"
  using round_double_eval [of 5 "5134103575202365 / 2 ^ 53 * 10 ^ 2"] by (simp add: round_half_even_def Let_def)

lemma ex_56_div_100: "round_double (real_of_int 56 / real_of_int (10 ^ 2)) = Fin (1261007895663739 / 2 ^ 51)"
  using round_double_eval [of "- 1" "real_of_int 56 / real_of_int (10 ^ 2)"] by (simp add: round_half_even_def Let_def)

lemma ex_056_times_100: "round_double (1261007895663739 / 2 ^ 51 * 100) = Fin (7881299347898369 / 2 ^ 47)"
  using round_double_eval [of 5 "1261007895663739 / 2 ^ 51 * 100"] by (simp add: round_half_even_def Let_def)

lemma ex_057_double: "round_double (5134103575202365 / 2 ^ 53) = Fin (5134103575202365 / 2 ^ 53)"
  using round_double_eval [of "- 1" "5134103575202365 / 2 ^ 53"] by (simp add: round_half_even_def Let_def)




subsection \<open>Evaluation of \<open>round_step_size\<close>\<close>

lemma round_step_size_unfold:
  assumes "s \<noteq> 0"
  shows "round_step_size (Fin q) (Fin s) =
     (case round_double (q / s) of
        Fin t \<Rightarrow> (case float_of_int \<lfloor>t\<rfloor> of Inl e \<Rightarrow> Inl e | Inr nf \<Rightarrow> Inr (float_mul nf (Fin s)))
      | NaN \<Rightarrow> Inl ValueError
      | _ \<Rightarrow> Inl OverflowError)"
  using assms by (simp add: round_step_size_def split: pyfloat.splits)

lemma round_step_size_bounds:
  assumes "0 \<le> q" "2 powi (- 1022) \<le> s" "q \<le> 2 ^ 1000" "q / s \<le> 2 ^ 1000"
  obtains t r where
    "float_truediv (Fin q) (Fin s) = Inr (Fin t)"
    "float_of_int \<lfloor>t\<rfloor> = Inr (Fin (of_int \<lfloor>t\<rfloor>))"
    "round_step_size (Fin q) (Fin s) = Inr (Fin r)"
    "round_double (of_int \<lfloor>t\<rfloor> * s) = Fin r"
    "\<bar>r - of_int \<lfloor>t\<rfloor> * s\<bar> \<le> of_int \<lfloor>t\<rfloor> * s / 2 ^ 53"
    "r \<le> q * (1 + 1 / 2 ^ 53) * (1 + 1 / 2 ^ 53)"
    "0 \<le> t" "0 \<le> r"
proof -
  define U :: real where "U = 1 + 1 / 2 ^ 53"
  have U1: "1 \<le> U" "U \<le> 2" by (simp_all add: U_def)
  have s0: "0 < s" using assms(2) by (meson less_le_trans zero_less_numeral zero_less_power_int)
  define a where "a = q / s"
  have a0: "0 \<le> a" using assms(1) s0 by (simp add: a_def)
  have a1: "\<bar>a\<bar> \<le> 2 ^ 1023"
  proof -
    have "a \<le> 2 ^ 1000" using assms(4) by (simp add: a_def)
    also have "\<dots> \<le> (2::real) ^ 1023" by (intro power_increasing) simp_all
    finally show ?thesis using a0 by simp
  qed
  obtain t where t: "round_double a = Fin t"
    "\<bar>t - a\<bar> \<le> max (\<bar>a\<bar> / 2 ^ 53) (2 powi (- 1075))" "0 \<le> t"
    using round_double_finite [OF a1] a0 by blast
  define n where "n = \<lfloor>t\<rfloor>"
  have n0: "0 \<le> n" using t(3) by (simp add: n_def)
  have nt: "of_int n \<le> t" by (simp add: n_def)
  have fn: "round_double (of_int n) = Fin (of_int n)"
    unfolding n_def using t(1) a0 by (rule floor_double)
  have fi: "float_of_int n = Inr (Fin (of_int n))" by (simp add: float_of_int_def fn)
  define c :: real where "c = of_int n * s"
  have c0: "0 \<le> c" using n0 s0 by (simp add: c_def)
  have rs: "round_step_size (Fin q) (Fin s) = Inr (round_double c)"
    unfolding round_step_size_unfold [OF less_imp_neq [OF s0, symmetric]]
    using t(1) fi by (simp add: a_def c_def n_def)
  have "\<exists>r. round_double c = Fin r \<and> \<bar>r - c\<bar> \<le> c / 2 ^ 53 \<and> r \<le> q * U * U \<and> 0 \<le> r"
  proof (cases "n = 0")
    case True
    then have "c = 0" by (simp add: c_def)
    then have "round_double c = Fin 0" by (simp add: round_double_def)
    moreover have "0 \<le> q * U * U" using assms(1) U1 by simp
    ultimately show ?thesis using \<open>c = 0\<close> by simp
  next
    case False
    then have n1: "1 \<le> n" using n0 by simp
    then have t1: "1 \<le> t" using nt by linarith
    have an: "2 powi (- 1022) \<le> a"
    proof (rule ccontr)
      assume "\<not> 2 powi (- 1022) \<le> a"
      then have lt: "a < 2 powi (- 1022)" by simp
      have "\<bar>a\<bar> / 2 ^ 53 \<le> \<bar>a\<bar>" by (simp add: field_simps)
      moreover have "(2::real) powi (- 1075) \<le> 2 powi (- 1022)" unfolding powi2_le_iff by simp
      ultimately have "max (\<bar>a\<bar> / 2 ^ 53) (2 powi (- 1075)) \<le> 2 powi (- 1022)"
        using lt a0 by simp
      then have "t \<le> 2 powi (- 1022) + 2 powi (- 1022)" using t(2) lt by linarith
      then show False using t1 tiny_lt_half by linarith
    qed
    obtain t' where t': "round_double a = Fin t'" "\<bar>t' - a\<bar> \<le> a / 2 ^ 53"
      using round_double_normal [OF an] a1 a0 by auto
    have "t' = t" using t' t(1) by simp
    then have "t \<le> a + a / 2 ^ 53" using t'(2) by linarith
    also have "\<dots> = a * U" by (simp add: U_def algebra_simps)
    finally have tU: "t \<le> a * U" .
    have "c \<le> t * s" unfolding c_def using nt s0 by (intro mult_right_mono) simp_all
    also have "\<dots> \<le> a * U * s" using tU s0 by (intro mult_right_mono) simp_all
    also have "\<dots> = q * U" using s0 by (simp add: a_def)
    finally have cq: "c \<le> q * U" .
    have "q * U \<le> 2 ^ 1000 * 2" using assms(1,3) U1 by (intro mult_mono) simp_all
    also have "\<dots> \<le> (2::real) ^ 1023" by simp
    finally have c1: "c \<le> 2 ^ 1023" using cq by linarith
    have "s * 1 \<le> s * of_int n" using n1 s0 by (intro mult_left_mono) simp_all
    then have "s \<le> c" by (simp add: c_def mult.commute)
    then have cn: "2 powi (- 1022) \<le> c" using assms(2) by linarith
    obtain r where r: "round_double c = Fin r" "\<bar>r - c\<bar> \<le> c / 2 ^ 53"
      using round_double_normal [OF cn c1] by auto
    have "r \<le> c + c / 2 ^ 53" using r(2) by linarith
    also have "\<dots> = c * U" by (simp add: U_def algebra_simps)
    finally have rcU: "r \<le> c * U" .
    have "c * U \<le> q * U * U" using cq U1 by (intro mult_right_mono) simp_all
    then have "r \<le> q * U * U" using rcU by linarith
    moreover have "0 \<le> r"
    proof -
      have "c / 2 ^ 53 \<le> c" using c0 by (simp add: field_simps)
      then show ?thesis using r(2) by linarith
    qed
    ultimately show ?thesis using r by blast
  qed
  then obtain r where r: "round_double c = Fin r" "\<bar>r - c\<bar> \<le> c / 2 ^ 53" "r \<le> q * U * U" "0 \<le> r"
    by blast
  show ?thesis
  proof (rule that [of t r])
    show "float_truediv (Fin q) (Fin s) = Inr (Fin t)" using t(1) s0 by (simp add: a_def)
    show "float_of_int \<lfloor>t\<rfloor> = Inr (Fin (of_int \<lfloor>t\<rfloor>))" using fi by (simp add: n_def)
    show "round_step_size (Fin q) (Fin s) = Inr (Fin r)" using rs r(1) by simp
    show "round_double (of_int \<lfloor>t\<rfloor> * s) = Fin r" using r(1) by (simp add: c_def n_def)
    show "\<bar>r - of_int \<lfloor>t\<rfloor> * s\<bar> \<le> of_int \<lfloor>t\<rfloor> * s / 2 ^ 53"
      using r(2) by (simp add: c_def n_def)
    show "r \<le> q * (1 + 1 / 2 ^ 53) * (1 + 1 / 2 ^ 53)" using r(3) by (simp add: U_def)
    show "0 \<le> t" by (rule t(3))
    show "0 \<le> r" by (rule r(4))
  qed
qed

lemma ex_17_div_01: "round_double (7656119366529843 / 2 ^ 52 / (3602879701896397 / 2 ^ 55)) = Fin 17"
  using round_double_eval [of 4 "7656119366529843 / 2 ^ 52 / (3602879701896397 / 2 ^ 55)"] by (simp add: round_half_even_def Let_def)

lemma ex_17_times_01: "round_double (17 * (3602879701896397 / 2 ^ 55)) = Fin (1914029841632461 / 2 ^ 50)"
  using round_double_eval [of 0 "17 * (3602879701896397 / 2 ^ 55)"] by (simp add: round_half_even_def Let_def)

lemma ex_17_double: "round_double (7656119366529843 / 2 ^ 52) = Fin (7656119366529843 / 2 ^ 52)"
  using round_double_eval [of 0 "7656119366529843 / 2 ^ 52"] by (simp add: round_half_even_def Let_def)

lemma ex_01_double: "round_double (3602879701896397 / 2 ^ 55) = Fin (3602879701896397 / 2 ^ 55)"
  using round_double_eval [of "- 4" "3602879701896397 / 2 ^ 55"] by (simp add: round_half_even_def Let_def)

lemma ex_rss_17_01:
  "round_step_size (Fin (7656119366529843 / 2 ^ 52)) (Fin (3602879701896397 / 2 ^ 55))
     = Inr (Fin (1914029841632461 / 2 ^ 50))"
proof -
  have "round_double (real_of_int 17) = Fin (real_of_int 17)" by (rule nat_is_double) simp_all
  then have "float_of_int 17 = Inr (Fin 17)" by (simp add: float_of_int_def)
  then show ?thesis
    using ex_17_div_01 ex_17_times_01 by (simp add: round_step_size_unfold)
qed

subsection \<open>Rendering and the decimal count\<close>

lemma digit_char_0: "digit_char 0 = CHR ''0''"
  by code_simp

lemma of_char_digit_char: "d < 10 \<Longrightarrow> (of_char (digit_char d) :: nat) = 48 + d"
  by (simp add: digit_char_def)

lemma digit_char_not_dot: "d < 10 \<Longrightarrow> digit_char d \<noteq> CHR ''.''"
proof
  assume d: "d < 10" and e: "digit_char d = CHR ''.''"
  have "(of_char (digit_char d) :: nat) = of_char CHR ''.''" by (simp only: e)
  then show False using of_char_digit_char [OF d] by simp
qed

lemma digit_char_eq_zero: "d < 10 \<Longrightarrow> digit_char d = CHR ''0'' \<longleftrightarrow> d = 0"
proof
  assume d: "d < 10" and e: "digit_char d = CHR ''0''"
  have "(of_char (digit_char d) :: nat) = of_char CHR ''0''" by (simp only: e)
  then show "d = 0" using of_char_digit_char [OF d] by simp
next
  assume "d = 0"
  then show "digit_char d = CHR ''0''" by (simp add: digit_char_0)
qed

lemma dec_digits_no_dot: "CHR ''.'' \<notin> set (dec_digits n)"
proof (induction n rule: dec_digits.induct)
  case (1 n)
  show ?case
  proof (cases "n < 10")
    case True
    then show ?thesis using digit_char_not_dot [of n] by (subst dec_digits.simps) auto
  next
    case False
    have "digit_char (n mod 10) \<noteq> CHR ''.''" by (rule digit_char_not_dot) simp
    then show ?thesis using 1 False by (subst dec_digits.simps) auto
  qed
qed

lemma fixed_digits_no_dot: "CHR ''.'' \<notin> set (fixed_digits k n)"
proof (induction k arbitrary: n)
  case 0
  show ?case by simp
next
  case (Suc k)
  have "digit_char (n mod 10) \<noteq> CHR ''.''" by (rule digit_char_not_dot) simp
  then show ?case using Suc by auto
qed

lemma length_fixed_digits [simp]: "length (fixed_digits k n) = k"
  by (induction k arbitrary: n) simp_all

lemma fixed_digits_zero: "fixed_digits k 0 = replicate k CHR ''0''"
  by (induction k) (simp_all add: digit_char_0 replicate_append_same)

lemma str_rstrip_append:
  assumes "p \<noteq> c"
  shows "str_rstrip c (A @ p # B) = A @ p # str_rstrip c B"
proof -
  have "dropWhile (\<lambda>x. x = c) (rev B @ p # rev A) = dropWhile (\<lambda>x. x = c) (rev B) @ p # rev A"
    by (rule dropWhile_append3) (use assms in simp)
  then show ?thesis by (simp add: str_rstrip_def)
qed

lemma length_str_rstrip: "length (str_rstrip c s) \<le> length s"
  using length_dropWhile_le [of "\<lambda>x. x = c" "rev s"] by (simp add: str_rstrip_def)

lemma str_rstrip_no_dot: "CHR ''.'' \<notin> set s \<Longrightarrow> CHR ''.'' \<notin> set (str_rstrip c s)"
  using set_dropWhileD [of "CHR ''.''" "\<lambda>x. x = c" "rev s"] by (auto simp: str_rstrip_def)

lemma str_rstrip_replicate: "str_rstrip c (replicate k c) = []"
  by (simp add: str_rstrip_def)

lemma str_rstrip_last: "s \<noteq> [] \<Longrightarrow> last s \<noteq> c \<Longrightarrow> str_rstrip c s = s"
  by (cases s rule: rev_cases) (simp_all add: str_rstrip_def)

lemma str_split_no_sep: "c \<notin> set s \<Longrightarrow> str_split c s = [s]"
  by (induction s) auto

lemma str_split_append:
  assumes "c \<notin> set A"
  shows "str_split c (A @ c # B) = A # str_split c B"
  using assms
proof (induction A)
  case Nil
  show ?case by simp
next
  case (Cons a A)
  then show ?case by auto
qed

lemma decimal_places_of_finite:
  "decimal_places_of (Fin v) = Inr (length (kept_digits v))"
proof -
  define n where "n = nat (round_half_even (\<bar>v\<bar> * 10 ^ 10))"
  define A where "A = (if v < 0 then ''-'' else '''') @ dec_digits (n div 10 ^ 10)"
  define B where "B = fixed_digits 10 (n mod 10 ^ 10)"
  have f: "format_f 10 (Fin v) = A @ CHR ''.'' # B"
    by (simp add: format_f_def Let_def n_def A_def B_def)
  have A: "CHR ''.'' \<notin> set A" using dec_digits_no_dot by (simp add: A_def)
  have B: "CHR ''.'' \<notin> set (str_rstrip CHR ''0'' B)"
    by (rule str_rstrip_no_dot) (simp add: B_def fixed_digits_no_dot)
  have r: "str_rstrip CHR ''0'' (format_f 10 (Fin v)) = A @ CHR ''.'' # str_rstrip CHR ''0'' B"
    unfolding f by (rule str_rstrip_append) simp
  have s: "str_split CHR ''.'' (A @ CHR ''.'' # str_rstrip CHR ''0'' B) = [A, str_rstrip CHR ''0'' B]"
    using str_split_append [OF A] str_split_no_sep [OF B] by simp
  show ?thesis
    unfolding decimal_places_of_def Let_def r s
    by (simp add: py_index_def kept_digits_def B_def n_def)
qed

lemma length_kept_digits: "length (kept_digits v) \<le> 10"
proof -
  have "length (kept_digits v)
      \<le> length (fixed_digits 10 (nat (round_half_even (\<bar>v\<bar> * 10 ^ 10)) mod 10 ^ 10))"
    unfolding kept_digits_def by (rule length_str_rstrip)
  then show ?thesis by (simp only: length_fixed_digits)
qed

lemma kept_digits_small:
  assumes "\<bar>v\<bar> * 10 ^ 10 \<le> 1 / 2"
  shows "kept_digits v = []"
proof -
  have "round_half_even (\<bar>v\<bar> * 10 ^ 10) \<le> round_half_even (1 / 2)"
    using assms by (rule round_half_even_mono)
  also have "round_half_even (1 / 2) = 0" by (simp add: round_half_even_def)
  finally have "nat (round_half_even (\<bar>v\<bar> * 10 ^ 10)) = 0" by simp
  then show ?thesis
    by (simp add: kept_digits_def fixed_digits_zero str_rstrip_replicate)
qed

lemma fixed_digits_last: "0 < k \<Longrightarrow> last (fixed_digits k n) = digit_char (n mod 10)"
  by (cases k) simp_all

lemma kept_digits_one:
  assumes "1 / 2 < \<bar>v\<bar> * 10 ^ 10" "\<bar>v\<bar> * 10 ^ 10 < 3 / 2"
  shows "length (kept_digits v) = 10"
proof -
  have "\<lfloor>\<bar>v\<bar> * 10 ^ 10\<rfloor> = 0 \<or> \<lfloor>\<bar>v\<bar> * 10 ^ 10\<rfloor> = 1" using assms by linarith
  then have "round_half_even (\<bar>v\<bar> * 10 ^ 10) = 1"
    using assms by (auto simp: round_half_even_def Let_def)
  then have n: "nat (round_half_even (\<bar>v\<bar> * 10 ^ 10)) mod 10 ^ 10 = 1" by simp
  have "last (fixed_digits 10 1) = digit_char 1" by (simp add: fixed_digits_last)
  moreover have "digit_char 1 \<noteq> CHR ''0''" using digit_char_eq_zero [of 1] by simp
  moreover have "fixed_digits 10 1 \<noteq> []"
    by (metis length_fixed_digits list.size(3) zero_neq_numeral)
  ultimately have "str_rstrip CHR ''0'' (fixed_digits 10 1) = fixed_digits 10 1"
    by (intro str_rstrip_last) simp_all
  then show ?thesis unfolding kept_digits_def n by simp
qed

lemma py_round_whole:
  assumes "\<bar>y\<bar> \<le> 2 ^ 53"
  shows "py_round (Fin y) 0 = Inr (Fin (of_int (round_half_even y)))"
proof -
  have "round_half_even y \<le> round_half_even (of_int (2 ^ 53))"
    using assms by (intro round_half_even_mono) simp
  moreover have "round_half_even (of_int (- (2 ^ 53))) \<le> round_half_even y"
    using assms by (intro round_half_even_mono) simp
  ultimately have "\<bar>round_half_even y\<bar> \<le> 2 ^ 53"
    by (simp only: round_half_even_of_int)
  from int_is_double [OF this] show ?thesis by (simp add: py_round_def)
qed

lemma ex_9e11_double: "round_double (870426590122533 / 2 ^ 83) = Fin (870426590122533 / 2 ^ 83)"
  using round_double_eval [of "- 34" "870426590122533 / 2 ^ 83"] by (simp add: round_half_even_def Let_def)

lemma ex_1e11_double: "round_double (6189700196426901 / 2 ^ 89) = Fin (6189700196426901 / 2 ^ 89)"
  using round_double_eval [of "- 37" "6189700196426901 / 2 ^ 89"] by (simp add: round_half_even_def Let_def)

lemma ex_06_double: "round_double (5404319552844595 / 2 ^ 53) = Fin (5404319552844595 / 2 ^ 53)"
  using round_double_eval [of "- 1" "5404319552844595 / 2 ^ 53"] by (simp add: round_half_even_def Let_def)

(*FLOATLEMMAS*)

section \<open>The control flow of the handler\<close>

lemma except_PyExn_not_rejection: "\<not> is_rejection (except_clauses (PyExn e))"
  by (cases e) simp_all


lemma submit_Inl: "fst (submit cfg client text params) = Inl r \<Longrightarrow> \<exists>e. r = PyExn e"
  by (auto simp: submit_def order_feedback_def split: sum.splits list.splits option.splits)

lemma buy_branch_rejection:
  assumes "buy_branch cfg client mn = (Inl r, calls)" "is_rejection (except_clauses r)"
  shows "calls = [Get_asset_balance (QUOTE_ASSET cfg)]"
proof (cases "get_asset_balance client (QUOTE_ASSET cfg)")
  case (Inl e)
  then show ?thesis using assms by (simp add: buy_branch_def)
next
  case (Inr usdc)
  show ?thesis
  proof (cases "buy_quote_qty usdc mn")
    case (Inl r')
    then show ?thesis using assms Inr by (simp add: buy_branch_def)
  next
    case (Inr q)
    define params where "params = \<lparr> order_symbol = SYMBOL cfg, order_side = SIDE_BUY,
        order_type = ORDER_TYPE_MARKET, order_size = QuoteOrderQty q \<rparr>"
    have "fst (submit cfg client (ustr ''buy'') params) = Inl r"
      using assms(1) \<open>get_asset_balance client (QUOTE_ASSET cfg) = Inr usdc\<close> Inr
      by (simp add: buy_branch_def params_def split: prod.splits)
    then obtain e where "r = PyExn e" using submit_Inl by blast
    then show ?thesis using assms(2) except_PyExn_not_rejection by simp
  qed
qed

lemma sell_branch_rejection:
  assumes "sell_branch cfg client st mq = (Inl r, calls)" "is_rejection (except_clauses r)"
  shows "calls = [] \<or> calls = [Get_asset_balance (BASE_ASSET cfg)]"
proof (cases "st = None \<or> mq = None")
  case True
  then show ?thesis using assms by (auto simp: sell_branch_def)
next
  case False
  note nn = False
  show ?thesis
  proof (cases "get_asset_balance client (BASE_ASSET cfg)")
    case (Inl e)
    then show ?thesis using assms nn by (simp add: sell_branch_def)
  next
    case (Inr eth)
    show ?thesis
    proof (cases "sell_qty cfg eth (the st) (the mq)")
      case (Inl r')
      then show ?thesis using assms Inr nn by (simp add: sell_branch_def)
    next
      case (Inr q)
      define params where "params = \<lparr> order_symbol = SYMBOL cfg, order_side = SIDE_SELL,
          order_type = ORDER_TYPE_MARKET, order_size = Quantity q \<rparr>"
      have "fst (submit cfg client (ustr ''sell'') params) = Inl r"
        using assms(1) \<open>get_asset_balance client (BASE_ASSET cfg) = Inr eth\<close> Inr nn
        by (simp add: sell_branch_def params_def split: prod.splits)
      then obtain e where "r = PyExn e" using submit_Inl by blast
      then show ?thesis using assms(2) except_PyExn_not_rejection by simp
    qed
  qed
qed

lemma webhook_rejection_calls:
  assumes "webhook cfg client request = (Inl r, calls)" "is_rejection r"
  shows "calls = [] \<or> calls = [Get_symbol_info (SYMBOL cfg)]
     \<or> calls = [Get_symbol_info (SYMBOL cfg), Get_asset_balance (QUOTE_ASSET cfg)]
     \<or> calls = [Get_symbol_info (SYMBOL cfg), Get_asset_balance (BASE_ASSET cfg)]"
proof (cases request)
  case None
  then show ?thesis using assms by (simp add: webhook_def)
next
  case (Some body)
  note req = Some
  show ?thesis
  proof (cases "check_token cfg body")
    case (Inl r')
    then show ?thesis using assms req by (simp add: webhook_def)
  next
    case (Inr u)
    note tok = Inr
    show ?thesis
    proof (cases "action_text body")
      case (Inl r')
      then show ?thesis using assms req tok by (simp add: webhook_def)
    next
      case (Inr t)
      note tx = Inr
      show ?thesis
      proof (cases "t \<noteq> (ustr ''buy'') \<and> t \<noteq> (ustr ''sell'')")
        case True
        then show ?thesis using assms req tok tx by (simp add: webhook_def)
      next
        case False
        note ok = False
        show ?thesis
        proof (cases "get_symbol_filters client (SYMBOL cfg)")
          case (Inl r')
          then show ?thesis using assms req tok tx ok by (auto simp: webhook_def)
        next
          case (Inr flt)
          obtain st mq mn where flt: "flt = (st, mq, mn)" by (cases flt) auto
          define br where "br = (if t = (ustr ''buy'') then buy_branch cfg client mn
                                 else sell_branch cfg client st mq)"
          obtain res cs where br: "br = (res, cs)" by (cases br) auto
          have w: "webhook cfg client request =
                (case res of Inl r \<Rightarrow> Inl (except_clauses r) | Inr ok \<Rightarrow> Inr ok,
                 Get_symbol_info (SYMBOL cfg) # cs)"
            using req tok tx ok Inr flt br unfolding br_def
            by (auto simp: webhook_def)
          from w assms(1) obtain r0 where r0: "res = Inl r0" "r = except_clauses r0"
            and cs: "calls = Get_symbol_info (SYMBOL cfg) # cs"
            by (cases res) auto
          show ?thesis
          proof (cases "t = (ustr ''buy'')")
            case True
            then have "buy_branch cfg client mn = (Inl r0, cs)" using br r0 by (simp add: br_def)
            from buy_branch_rejection [OF this] assms(2) r0 cs show ?thesis by simp
          next
            case False
            then have "sell_branch cfg client st mq = (Inl r0, cs)" using br r0 by (simp add: br_def)
            from sell_branch_rejection [OF this] assms(2) r0 cs show ?thesis by auto
          qed
        qed
      qed
    qed
  qed
qed

lemma buy_branch_Inl:
  assumes "buy_branch cfg client mn = (Inl r, calls)"
  shows "(\<exists>e. r = PyExn e) \<or> (\<exists>q m. r = HTTPException 400 (Guthaben_zu_gering_minNotional q m))
     \<or> (\<exists>b. r = HTTPException 400 (Guthaben_zu_gering b))"
proof (cases "get_asset_balance client (QUOTE_ASSET cfg)")
  case (Inl e)
  then show ?thesis using assms by (auto simp: buy_branch_def)
next
  case (Inr usdc)
  show ?thesis
  proof (cases "buy_quote_qty usdc mn")
    case (Inl r')
    then have "r = r'" using assms Inr by (simp add: buy_branch_def)
    then show ?thesis using Inl
      by (auto simp: buy_quote_qty_def split: option.splits sum.splits if_splits)
  next
    case (Inr q)
    define params where "params = \<lparr> order_symbol = SYMBOL cfg, order_side = SIDE_BUY,
        order_type = ORDER_TYPE_MARKET, order_size = QuoteOrderQty q \<rparr>"
    have "fst (submit cfg client (ustr ''buy'') params) = Inl r"
      using assms(1) \<open>get_asset_balance client (QUOTE_ASSET cfg) = Inr usdc\<close> Inr
      by (simp add: buy_branch_def params_def split: prod.splits)
    then show ?thesis using submit_Inl by blast
  qed
qed

lemma sell_branch_Inl:
  assumes "sell_branch cfg client st mq = (Inl r, calls)"
  shows "(\<exists>e. r = PyExn e) \<or> r = HTTPException 400 Kein_LOT_SIZE_Filter
     \<or> (\<exists>a q m. r = HTTPException 400 (Zu_wenig a q m))"
proof (cases "st = None \<or> mq = None")
  case True
  then show ?thesis using assms by (auto simp: sell_branch_def)
next
  case False
  note nn = False
  show ?thesis
  proof (cases "get_asset_balance client (BASE_ASSET cfg)")
    case (Inl e)
    then show ?thesis using assms nn by (auto simp: sell_branch_def)
  next
    case (Inr eth)
    show ?thesis
    proof (cases "sell_qty cfg eth (the st) (the mq)")
      case (Inl r')
      then have "r = r'" using assms Inr nn by (simp add: sell_branch_def)
      then show ?thesis using Inl
        by (auto simp: sell_qty_def split: option.splits sum.splits if_splits)
    next
      case (Inr q)
      define params where "params = \<lparr> order_symbol = SYMBOL cfg, order_side = SIDE_SELL,
          order_type = ORDER_TYPE_MARKET, order_size = Quantity q \<rparr>"
      have "fst (submit cfg client (ustr ''sell'') params) = Inl r"
        using assms(1) \<open>get_asset_balance client (BASE_ASSET cfg) = Inr eth\<close> Inr nn
        by (simp add: sell_branch_def params_def split: prod.splits)
      then show ?thesis using submit_Inl by blast
    qed
  qed
qed

lemma except_PyExn_not_early: "\<not> early_detail (except_clauses (PyExn e))"
  by (cases e) simp_all

lemma get_symbol_filters_Inl:
  "get_symbol_filters client s = Inl r \<Longrightarrow> \<not> early_detail r"
  by (auto simp: get_symbol_filters_def split: sum.splits option.splits)

lemma webhook_after_filters:
  assumes "check_token cfg body = Inr u" "action_text body = Inr t" "t = (ustr ''buy'') \<or> t = (ustr ''sell'')"
    "get_symbol_filters client (SYMBOL cfg) = Inr (st, mq, mn)"
  shows "webhook cfg client (Some body) =
     (let (res, calls) = (if t = (ustr ''buy'') then buy_branch cfg client mn
                          else sell_branch cfg client st mq)
      in (case res of Inl r \<Rightarrow> Inl (except_clauses r) | Inr ok \<Rightarrow> Inr ok,
          Get_symbol_info (SYMBOL cfg) # calls))"
  using assms by (auto simp: webhook_def)

lemma webhook_early_calls:
  assumes "webhook cfg client request = (Inl r, calls)" "early_detail r"
  shows "calls = []"
proof (cases request)
  case None
  then show ?thesis using assms by (simp add: webhook_def)
next
  case (Some body)
  note req = Some
  show ?thesis
  proof (cases "check_token cfg body")
    case (Inl r')
    then show ?thesis using assms req by (simp add: webhook_def)
  next
    case (Inr u)
    note tok = Inr
    show ?thesis
    proof (cases "action_text body")
      case (Inl r')
      then show ?thesis using assms req tok by (simp add: webhook_def)
    next
      case (Inr t)
      note tx = Inr
      show ?thesis
      proof (cases "t \<noteq> (ustr ''buy'') \<and> t \<noteq> (ustr ''sell'')")
        case True
        then show ?thesis using assms req tok tx by (simp add: webhook_def)
      next
        case False
        then have ok: "t = (ustr ''buy'') \<or> t = (ustr ''sell'')" by auto
        show ?thesis
        proof (cases "get_symbol_filters client (SYMBOL cfg)")
          case (Inl r')
          then have "r = r'" using assms req tok tx ok by (auto simp: webhook_def)
          then show ?thesis using get_symbol_filters_Inl [OF Inl] assms(2) by simp
        next
          case (Inr flt)
          obtain st mq mn where flt: "flt = (st, mq, mn)" by (cases flt) auto
          define br where "br = (if t = (ustr ''buy'') then buy_branch cfg client mn
                                 else sell_branch cfg client st mq)"
          obtain res cs where br: "br = (res, cs)" by (cases br) auto
          have w: "webhook cfg client request =
                (case res of Inl r \<Rightarrow> Inl (except_clauses r) | Inr ok \<Rightarrow> Inr ok,
                 Get_symbol_info (SYMBOL cfg) # cs)"
            using webhook_after_filters [OF tok tx ok Inr [unfolded flt]] br req
            by (simp add: br_def)
          from w assms(1) obtain r0 where r0: "res = Inl r0" "r = except_clauses r0"
            by (cases res) auto
          have "\<not> early_detail (except_clauses r0)"
          proof (cases "t = (ustr ''buy'')")
            case True
            then have "buy_branch cfg client mn = (Inl r0, cs)" using br r0 by (simp add: br_def)
            from buy_branch_Inl [OF this] show ?thesis
              using except_PyExn_not_early by auto
          next
            case False
            then have "sell_branch cfg client st mq = (Inl r0, cs)" using br r0 by (simp add: br_def)
            from sell_branch_Inl [OF this] show ?thesis
              using except_PyExn_not_early by auto
          qed
          then show ?thesis using assms(2) r0 by simp
        qed
      qed
    qed
  qed
qed


lemma check_token_unset:
  "WEBHOOK_TOKEN cfg = None \<or> WEBHOOK_TOKEN cfg = Some [] \<Longrightarrow> check_token cfg body = Inr ()"
  by (auto simp: check_token_def)

lemma action_text_cong:
  assumes "map_of d1 (ustr ''message'') = map_of d2 (ustr ''message'')" "map_of d1 (ustr ''action'') = map_of d2 (ustr ''action'')"
  shows "action_text (JDict d1) = action_text (JDict d2)"
  using assms by (simp add: action_text_def)

lemma webhook_cong:
  assumes "check_token cfg b1 = check_token cfg b2" "action_text b1 = action_text b2"
  shows "webhook cfg client (Some b1) = webhook cfg client (Some b2)"
  unfolding webhook_def option.case assms by (rule refl)

lemma webhook_not_unauthorized:
  assumes "WEBHOOK_TOKEN cfg = None \<or> WEBHOOK_TOKEN cfg = Some []"
  shows "fst (webhook cfg client request) \<noteq> Inl (HTTPException c Ungueltiger_Token)"
proof
  assume a: "fst (webhook cfg client request) = Inl (HTTPException c Ungueltiger_Token)"
  obtain calls where w: "webhook cfg client request = (Inl (HTTPException c Ungueltiger_Token), calls)"
    using a by (cases "webhook cfg client request") auto
  have "calls = []" using webhook_early_calls [OF w] by simp
  show False
  proof (cases request)
    case None
    then show ?thesis using w by (simp add: webhook_def)
  next
    case (Some body)
    have tok: "check_token cfg body = Inr ()" using assms by (rule check_token_unset)
    show ?thesis
    proof (cases "action_text body")
      case (Inl r')
      then have "\<exists>e. r' = PyExn e"
        by (auto simp: action_text_def split: sum.splits json.splits if_splits)
      then show ?thesis using w Some tok Inl by (auto simp: webhook_def)
    next
      case (Inr t)
      then show ?thesis using w Some tok \<open>calls = []\<close>
        by (auto simp: webhook_def split: if_splits sum.splits prod.splits)
    qed
  qed
qed


lemma action_text_first_nonempty:
  "action_text (JDict d) =
     (case first_nonempty d of JStr s \<Rightarrow> Inr (normalized s) | _ \<Rightarrow> Inl (PyExn AttributeError))"
  by (auto simp: accepted_fields_def action_text_def first_nonempty_def
      normalized_def List.map_filter_def split: option.splits json.splits)

lemma webhook_action_raises:
  assumes "check_token cfg body = Inr u" "action_text body = Inl r"
  shows "webhook cfg client (Some body) = (Inl r, [])"
  using assms by (simp add: webhook_def)

lemma webhook_unrecognized:
  assumes "check_token cfg body = Inr u" "action_text body = Inr t" "t \<noteq> (ustr ''buy'')" "t \<noteq> (ustr ''sell'')"
  shows "webhook cfg client (Some body) = (Inl (HTTPException 400 Erwarte_buy_oder_sell), [])"
  using assms by (simp add: webhook_def)

lemma webhook_proceeds:
  assumes "check_token cfg body = Inr u" "action_text body = Inr t" "t = (ustr ''buy'') \<or> t = (ustr ''sell'')"
  shows "\<exists>calls. snd (webhook cfg client (Some body)) = Get_symbol_info (SYMBOL cfg) # calls"
  using assms by (auto simp: webhook_def split: sum.splits prod.splits)

lemma normalized_example: "normalized (ustr ''  BuY  '') = (ustr ''buy'')"
  by (simp add: normalized_def text_eval)

lemma round_step_size_zero: "round_step_size q (Fin 0) = Inl ZeroDivisionError"
  by (simp add: round_step_size_def)

lemma sell_qty_zero_step:
  "sell_qty cfg (Some (Number q)) (Fin 0) mq = Inl (PyExn ZeroDivisionError)"
  by (simp add: sell_qty_def to_float_def round_step_size_zero)

lemma sell_branch_zero_step:
  assumes "get_asset_balance client (BASE_ASSET cfg) = Inr (Some (Number q))"
  shows "sell_branch cfg client (Some (Fin 0)) (Some mq)
     = (Inl (PyExn ZeroDivisionError), [Get_asset_balance (BASE_ASSET cfg)])"
  using assms by (simp add: sell_branch_def sell_qty_zero_step)

lemma sell_branch_no_filter:
  "st = None \<or> mq = None \<Longrightarrow>
   sell_branch cfg client st mq = (Inl (HTTPException 400 Kein_LOT_SIZE_Filter), [])"
  by (auto simp: sell_branch_def)

lemma webhook_sell:
  assumes "check_token cfg body = Inr u" "action_text body = Inr (ustr ''sell'')"
    "get_symbol_filters client (SYMBOL cfg) = Inr (st, mq, mn)"
  shows "webhook cfg client (Some body) =
     (let (res, calls) = sell_branch cfg client st mq
      in (case res of Inl r \<Rightarrow> Inl (except_clauses r) | Inr ok \<Rightarrow> Inr ok,
          Get_symbol_info (SYMBOL cfg) # calls))"
  using webhook_after_filters [OF assms(1,2) _ assms(3)] by simp


subsection \<open>The buy branch\<close>




















lemma example_config_check: "check_token example_config body = Inr ()"
  by (simp add: check_token_def example_config_def)


lemma ex_action_sell: "action_text (JDict [((ustr ''message''), JStr (ustr ''sell''))]) = Inr (ustr ''sell'')"
  by (simp add: text_eval)

(*FLOWLEMMAS*)

section \<open>The claims\<close>

text \<open>
  C4.  Whenever the handler ends in one of the rejections of a client's input (malformed
  payload, unauthorized, unrecognized action, unknown pair, missing lot-size filter,
  insufficient balance or quantity), no order has been submitted to the exchange when the
  rejection is raised; when the rejection is the unauthorized or the unrecognized-action
  one, no call to the exchange has been made at all.
\<close>

theorem rejection_before_order_submission:
  assumes "webhook cfg client request = (Inl r, calls)" and "is_rejection r"
  shows "(\<forall>p. Create_order p \<notin> set calls)
     \<and> (r = HTTPException 401 Ungueltiger_Token \<or> r = HTTPException 400 Erwarte_buy_oder_sell
          \<longrightarrow> calls = [])"
proof -
  have "\<forall>p. Create_order p \<notin> set calls"
    using webhook_rejection_calls [OF assms] by auto
  moreover have "calls = []"
    if "r = HTTPException 401 Ungueltiger_Token \<or> r = HTTPException 400 Erwarte_buy_oder_sell"
    using webhook_early_calls [OF assms(1)] that by auto
  ultimately show ?thesis by blast
qed

theorem rejection_before_order_submission_witness:
  "webhook secured_config no_exchange (Some (JDict [((ustr ''message''), JStr (ustr ''buy''))]))
     = (Inl (HTTPException 401 Ungueltiger_Token), [])
   \<and> is_rejection (HTTPException 401 Ungueltiger_Token)
   \<and> (\<forall>p. Create_order p \<notin> set ([] :: call list))"
proof -
  have w: "webhook secured_config no_exchange (Some (JDict [((ustr ''message''), JStr (ustr ''buy''))]))
     = (Inl (HTTPException 401 Ungueltiger_Token), [])"
    by (simp add: webhook_def check_token_def secured_config_def example_config_def)
  have r: "is_rejection (HTTPException 401 Ungueltiger_Token)" by simp
  from rejection_before_order_submission [OF w r] w r show ?thesis by simp
qed

text \<open>
  C9.  When no token is configured (\<open>WEBHOOK_TOKEN\<close> unset or empty), two payloads that
  differ only in their \<open>token\<close> field get the same result, with the same calls to the
  exchange, and the handler never raises the 401 \<open>HTTPException\<close> of the token check.
\<close>

theorem token_field_ignored_when_unconfigured:
  assumes "WEBHOOK_TOKEN cfg = None \<or> WEBHOOK_TOKEN cfg = Some []"
  shows "((\<forall>k. k \<noteq> (ustr ''token'') \<longrightarrow> map_of d1 k = map_of d2 k)
            \<longrightarrow> webhook cfg client (Some (JDict d1)) = webhook cfg client (Some (JDict d2)))
     \<and> fst (webhook cfg client request) \<noteq> Inl (HTTPException 401 Ungueltiger_Token)"
proof -
  have "webhook cfg client (Some (JDict d1)) = webhook cfg client (Some (JDict d2))"
    if "\<forall>k. k \<noteq> (ustr ''token'') \<longrightarrow> map_of d1 k = map_of d2 k"
  proof (rule webhook_cong)
    show "check_token cfg (JDict d1) = check_token cfg (JDict d2)"
      using assms by (simp add: check_token_unset)
    show "action_text (JDict d1) = action_text (JDict d2)"
      using that by (intro action_text_cong) simp_all
  qed
  then show ?thesis using webhook_not_unauthorized [OF assms] by blast
qed

theorem token_field_ignored_when_unconfigured_witness:
  "webhook example_config no_exchange
       (Some (JDict [((ustr ''token''), JStr (ustr ''guess'')), ((ustr ''message''), JStr (ustr ''hold''))]))
     = webhook example_config no_exchange (Some (JDict [((ustr ''message''), JStr (ustr ''hold''))]))
   \<and> fst (webhook example_config no_exchange (Some (JDict [((ustr ''token''), JInt 7)])))
       \<noteq> Inl (HTTPException 401 Ungueltiger_Token)"
proof -
  have c: "WEBHOOK_TOKEN example_config = None \<or> WEBHOOK_TOKEN example_config = Some []"
    by (simp add: example_config_def)
  have d: "\<forall>k. k \<noteq> (ustr ''token'') \<longrightarrow>
      map_of [((ustr ''token''), JStr (ustr ''guess'')), ((ustr ''message''), JStr (ustr ''hold''))] k
      = map_of [((ustr ''message''), JStr (ustr ''hold''))] k"
    by simp
  from token_field_ignored_when_unconfigured [OF c, of _ _ no_exchange] d show ?thesis
    by blast
qed


text \<open>
  C8, counterexample.  The first present and non-empty accepted field need not hold a text.
  For the payload \<open>{"message": 5}\<close> (no token configured) it is the number \<open>5\<close>, which
  has no \<open>strip\<close>: line 74 raises \<open>AttributeError\<close>, outside every \<open>try\<close>.  The request
  neither proceeds to the exchange nor fails with the 400 \<open>HTTPException\<close> of line 76.
\<close>

theorem action_value_not_a_string:
  "first_nonempty [(ustr ''message'', JInt 5)] = JInt 5
   \<and> webhook example_config no_exchange (Some (JDict [(ustr ''message'', JInt 5)]))
       = (Inl (PyExn AttributeError), [])"
  by (simp add: first_nonempty_def accepted_fields_def List.map_filter_def webhook_def
      check_token_def example_config_def action_text_def)

text \<open>
  C8, amended.  For a payload that is a JSON object and has passed the token check, the
  action value is the value of the first of \<open>message\<close>, \<open>action\<close> that is present and
  non-empty (a \<open>null\<close>, \<open>false\<close>, zero or empty value counts as empty), the empty string
  when there is none.  If it is a string, the action text is that string stripped of
  surrounding whitespace and lowercased; the request goes on to the exchange exactly when
  the text is \<open>buy\<close> or \<open>sell\<close>, and is otherwise rejected with the 400 \<open>HTTPException\<close>
  of line 76 before any call.  If it is not a string, the handler raises \<open>AttributeError\<close>
  before any call.  Two such payloads whose action values are strings with the same
  normalized text are handled identically, so a whitespace-padded \<open>BuY\<close> is handled as
  \<open>buy\<close>.
\<close>

theorem action_value_normalized:
  assumes "check_token cfg (JDict d) = Inr ()"
  shows "(case first_nonempty d of
            JStr s \<Rightarrow>
              action_text (JDict d) = Inr (normalized s)
              \<and> (if normalized s = ustr ''buy'' \<or> normalized s = ustr ''sell''
                  then (\<exists>calls. snd (webhook cfg client (Some (JDict d)))
                                  = Get_symbol_info (SYMBOL cfg) # calls)
                       \<and> fst (webhook cfg client (Some (JDict d)))
                            \<noteq> Inl (HTTPException 400 Erwarte_buy_oder_sell)
                  else webhook cfg client (Some (JDict d))
                         = (Inl (HTTPException 400 Erwarte_buy_oder_sell), []))
          | _ \<Rightarrow> webhook cfg client (Some (JDict d)) = (Inl (PyExn AttributeError), []))
     \<and> (\<forall>s s'. check_token cfg (JDict d') = Inr ()
            \<and> first_nonempty d = JStr s \<and> first_nonempty d' = JStr s'
            \<and> normalized s' = normalized s
          \<longrightarrow> webhook cfg client (Some (JDict d')) = webhook cfg client (Some (JDict d)))"
proof -
  note at = action_text_first_nonempty [of d]
  have str: "action_text (JDict d) = Inr (normalized s)
      \<and> (if normalized s = ustr ''buy'' \<or> normalized s = ustr ''sell''
          then (\<exists>calls. snd (webhook cfg client (Some (JDict d)))
                          = Get_symbol_info (SYMBOL cfg) # calls)
               \<and> fst (webhook cfg client (Some (JDict d)))
                    \<noteq> Inl (HTTPException 400 Erwarte_buy_oder_sell)
          else webhook cfg client (Some (JDict d))
                 = (Inl (HTTPException 400 Erwarte_buy_oder_sell), []))"
    if f: "first_nonempty d = JStr s" for s
  proof -
    have a: "action_text (JDict d) = Inr (normalized s)" using at f by simp
    show ?thesis
    proof (cases "normalized s = ustr ''buy'' \<or> normalized s = ustr ''sell''")
      case True
      have A: "\<exists>calls. snd (webhook cfg client (Some (JDict d))) = Get_symbol_info (SYMBOL cfg) # calls"
        using webhook_proceeds [OF assms a True] .
      have B: "fst (webhook cfg client (Some (JDict d))) \<noteq> Inl (HTTPException 400 Erwarte_buy_oder_sell)"
      proof
        assume e: "fst (webhook cfg client (Some (JDict d))) = Inl (HTTPException 400 Erwarte_buy_oder_sell)"
        obtain calls where w: "webhook cfg client (Some (JDict d))
            = (Inl (HTTPException 400 Erwarte_buy_oder_sell), calls)"
          using e by (cases "webhook cfg client (Some (JDict d))") auto
        have "calls = []" using webhook_early_calls [OF w] by simp
        then show False using A w by simp
      qed
      from a A B True show ?thesis by (simp only: if_True) blast
    next
      case False
      then have "webhook cfg client (Some (JDict d)) = (Inl (HTTPException 400 Erwarte_buy_oder_sell), [])"
        using webhook_unrecognized [OF assms a] by simp
      with a False show ?thesis by (simp only: if_False)
    qed
  qed
  have other: "webhook cfg client (Some (JDict d)) = (Inl (PyExn AttributeError), [])"
    if f: "\<And>s. first_nonempty d \<noteq> JStr s"
  proof -
    have "action_text (JDict d) = Inl (PyExn AttributeError)"
      using at f by (cases "first_nonempty d") auto
    then show ?thesis by (rule webhook_action_raises [OF assms])
  qed
  have first: "case first_nonempty d of
            JStr s \<Rightarrow>
              action_text (JDict d) = Inr (normalized s)
              \<and> (if normalized s = ustr ''buy'' \<or> normalized s = ustr ''sell''
                  then (\<exists>calls. snd (webhook cfg client (Some (JDict d)))
                                  = Get_symbol_info (SYMBOL cfg) # calls)
                       \<and> fst (webhook cfg client (Some (JDict d)))
                            \<noteq> Inl (HTTPException 400 Erwarte_buy_oder_sell)
                  else webhook cfg client (Some (JDict d))
                         = (Inl (HTTPException 400 Erwarte_buy_oder_sell), []))
          | _ \<Rightarrow> webhook cfg client (Some (JDict d)) = (Inl (PyExn AttributeError), [])"
  proof (cases "first_nonempty d")
    case (JStr s)
    show ?thesis unfolding JStr json.case using str [OF JStr] .
  qed (use other in simp_all)
  have second: "webhook cfg client (Some (JDict d')) = webhook cfg client (Some (JDict d))"
    if "check_token cfg (JDict d') = Inr ()" "first_nonempty d = JStr s"
      "first_nonempty d' = JStr s'" "normalized s' = normalized s" for s s'
  proof (rule webhook_cong)
    show "check_token cfg (JDict d') = check_token cfg (JDict d)" using that(1) assms by simp
    show "action_text (JDict d') = action_text (JDict d)"
      using action_text_first_nonempty [of d'] at that(2,3,4) by simp
  qed
  from first second show ?thesis by blast
qed

theorem action_value_normalized_witness:
  "action_text (JDict [(ustr ''message'', JNull),
       (ustr ''action'', JStr (8195 # ustr ''BuY'' @ [32, 160]))]) = Inr (ustr ''buy'')
   \<and> (\<exists>calls. snd (webhook example_config no_exchange
          (Some (JDict [(ustr ''message'', JNull),
             (ustr ''action'', JStr (8195 # ustr ''BuY'' @ [32, 160]))])))
        = Get_symbol_info ''ETHUSDC'' # calls)
   \<and> webhook example_config no_exchange (Some (JDict [(ustr ''message'', JStr (ustr ''buy''))]))
      = webhook example_config no_exchange
          (Some (JDict [(ustr ''message'', JNull),
             (ustr ''action'', JStr (8195 # ustr ''BuY'' @ [32, 160]))]))
   \<and> action_text (JDict [(ustr ''action'', JStr (ustr ''buy'')),
       (ustr ''message'', JStr (ustr '' Sell''))]) = Inr (ustr ''sell'')
   \<and> webhook example_config no_exchange (Some (JDict [(ustr ''action'', JStr (ustr ''buying''))]))
      = (Inl (HTTPException 400 Erwarte_buy_oder_sell), [])
   \<and> webhook example_config no_exchange (Some (JDict [(ustr ''action'', JList [JStr (ustr ''buy'')])]))
      = (Inl (PyExn AttributeError), [])"
proof -
  define d where "d = [(ustr ''message'', JNull),
     (ustr ''action'', JStr (8195 # ustr ''BuY'' @ [32, 160]))]"
  define d' where "d' = [(ustr ''message'', JStr (ustr ''buy''))]"
  define d2 where "d2 = [(ustr ''action'', JStr (ustr ''buy'')),
     (ustr ''message'', JStr (ustr '' Sell''))]"
  define d3 where "d3 = [(ustr ''action'', JStr (ustr ''buying''))]"
  define d4 where "d4 = [(ustr ''action'', JList [JStr (ustr ''buy'')])]"
  note c = example_config_check
  have f: "first_nonempty d = JStr (8195 # ustr ''BuY'' @ [32, 160])"
    "first_nonempty d' = JStr (ustr ''buy'')"
    "first_nonempty d2 = JStr (ustr '' Sell'')"
    "first_nonempty d3 = JStr (ustr ''buying'')"
    "first_nonempty d4 = JList [JStr (ustr ''buy'')]"
    by (simp_all add: first_nonempty_def d_def d'_def d2_def d3_def d4_def accepted_fields_def
        List.map_filter_def)
  have n: "normalized (8195 # ustr ''BuY'' @ [32, 160]) = ustr ''buy''"
    "normalized (ustr ''buy'') = ustr ''buy''"
    "normalized (ustr '' Sell'') = ustr ''sell''"
    "normalized (ustr ''buying'') = ustr ''buying''"
    by (simp_all add: normalized_def text_eval)
  have s: "SYMBOL example_config = ''ETHUSDC''" by (simp add: example_config_def)
  have 1: "action_text (JDict d) = Inr (ustr ''buy'')
     \<and> (\<exists>calls. snd (webhook example_config no_exchange (Some (JDict d)))
          = Get_symbol_info ''ETHUSDC'' # calls)
     \<and> webhook example_config no_exchange (Some (JDict d'))
        = webhook example_config no_exchange (Some (JDict d))"
    using action_value_normalized [of example_config d no_exchange d', OF c] c f(1,2) n(1,2) s by simp
  have 2: "action_text (JDict d2) = Inr (ustr ''sell'')"
    using action_value_normalized [of example_config d2 no_exchange d', OF c] f(3) n(3) by simp
  have 3: "webhook example_config no_exchange (Some (JDict d3))
      = (Inl (HTTPException 400 Erwarte_buy_oder_sell), [])"
    using action_value_normalized [of example_config d3 no_exchange d', OF c] f(4) n(4) by simp
  have 4: "webhook example_config no_exchange (Some (JDict d4)) = (Inl (PyExn AttributeError), [])"
    using action_value_normalized [of example_config d4 no_exchange d', OF c] f(5) by simp
  from 1 2 3 4 show ?thesis unfolding d_def d'_def d2_def d3_def d4_def by blast
qed

text \<open>
  C3, counterexample.  With a lot-size filter whose step size is 0, a sell signal does not
  fail before the quantity computation: the balance is read, \<open>round_step_size\<close> divides by
  the step, the division raises \<open>ZeroDivisionError\<close>, and the handler answers with the 500
  of its last \<open>except\<close> clause.
\<close>

theorem zero_step_division_attempted:
  "webhook example_config zero_step_exchange (Some (JDict [((ustr ''message''), JStr (ustr ''sell''))]))
     = (Inl (HTTPException 500 (Server_error ZeroDivisionError)),
        [Get_symbol_info ''ETHUSDC'', Get_asset_balance ''ETH''])
   \<and> round_step_size (Fin 1) (Fin 0) = Inl ZeroDivisionError
   \<and> float_truediv (Fin 1) (Fin 0) = Inl ZeroDivisionError"
proof -
  have c: "check_token example_config (JDict [((ustr ''message''), JStr (ustr ''sell''))]) = Inr ()"
    by (simp add: check_token_def example_config_def)
  have a: "action_text (JDict [((ustr ''message''), JStr (ustr ''sell''))]) = Inr (ustr ''sell'')"
    by (simp add: text_eval)
  have f: "get_symbol_filters zero_step_exchange (SYMBOL example_config)
      = Inr (Some (Fin 0), Some (Fin (1 / 100)), None)"
    by (simp add: get_symbol_filters_def zero_step_exchange_def to_float_def)
  have b: "get_asset_balance zero_step_exchange (BASE_ASSET example_config)
      = Inr (Some (Number (Fin 1)))"
    by (simp add: zero_step_exchange_def)
  show ?thesis
    unfolding webhook_sell [OF c a f] sell_branch_zero_step [OF b]
    by (simp add: example_config_def round_step_size_zero)
qed

text \<open>
  C3, as amended.  For a sell signal, an absent step size or minimum quantity is rejected
  with the 400 \<open>HTTPException\<close> of line 106 right after the filters are resolved, before
  the balance is read.  A step size of 0 is not caught there: the balance is read, the
  division in \<open>round_step_size\<close> raises \<open>ZeroDivisionError\<close>, and the handler raises a 500
  \<open>HTTPException\<close>; no order is submitted.
\<close>

theorem missing_or_zero_step:
  assumes "check_token cfg body = Inr ()" and "action_text body = Inr (ustr ''sell'')"
    and "get_symbol_filters client (SYMBOL cfg) = Inr (step_size, min_qty, min_notional)"
  shows "(step_size = None \<or> min_qty = None \<longrightarrow>
            webhook cfg client (Some body)
              = (Inl (HTTPException 400 Kein_LOT_SIZE_Filter), [Get_symbol_info (SYMBOL cfg)]))
     \<and> (step_size = Some (Fin 0) \<and> min_qty = Some mq
          \<and> get_asset_balance client (BASE_ASSET cfg) = Inr (Some (Number q)) \<longrightarrow>
            round_step_size q (Fin 0) = Inl ZeroDivisionError
            \<and> webhook cfg client (Some body)
              = (Inl (HTTPException 500 (Server_error ZeroDivisionError)),
                 [Get_symbol_info (SYMBOL cfg), Get_asset_balance (BASE_ASSET cfg)]))"
proof -
  note w = webhook_sell [OF assms]
  have A: "webhook cfg client (Some body)
      = (Inl (HTTPException 400 Kein_LOT_SIZE_Filter), [Get_symbol_info (SYMBOL cfg)])"
    if "step_size = None \<or> min_qty = None"
    unfolding w sell_branch_no_filter [OF that] by simp
  have B: "webhook cfg client (Some body)
      = (Inl (HTTPException 500 (Server_error ZeroDivisionError)),
         [Get_symbol_info (SYMBOL cfg), Get_asset_balance (BASE_ASSET cfg)])"
    if "step_size = Some (Fin 0)" "min_qty = Some mq"
      "get_asset_balance client (BASE_ASSET cfg) = Inr (Some (Number q))"
    unfolding w that(1,2) sell_branch_zero_step [OF that(3)] by simp
  show ?thesis using A B round_step_size_zero by blast
qed

theorem missing_or_zero_step_witness:
  "webhook example_config no_lot_size_exchange (Some (JDict [((ustr ''message''), JStr (ustr ''sell''))]))
     = (Inl (HTTPException 400 Kein_LOT_SIZE_Filter), [Get_symbol_info ''ETHUSDC''])
   \<and> webhook example_config zero_step_exchange (Some (JDict [((ustr ''action''), JStr (ustr ''SELL''))]))
     = (Inl (HTTPException 500 (Server_error ZeroDivisionError)),
        [Get_symbol_info ''ETHUSDC'', Get_asset_balance ''ETH''])"
proof -
  have c: "check_token example_config (JDict [((ustr ''message''), JStr (ustr ''sell''))]) = Inr ()"
    "check_token example_config (JDict [((ustr ''action''), JStr (ustr ''SELL''))]) = Inr ()"
    by (simp_all add: check_token_def example_config_def)
  have a: "action_text (JDict [((ustr ''message''), JStr (ustr ''sell''))]) = Inr (ustr ''sell'')"
    "action_text (JDict [((ustr ''action''), JStr (ustr ''SELL''))]) = Inr (ustr ''sell'')"
    by (simp_all add: text_eval)
  have f1: "get_symbol_filters no_lot_size_exchange (SYMBOL example_config) = Inr (None, None, None)"
    by (simp add: get_symbol_filters_def no_lot_size_exchange_def)
  have f2: "get_symbol_filters zero_step_exchange (SYMBOL example_config)
      = Inr (Some (Fin 0), Some (Fin (1 / 100)), None)"
    by (simp add: get_symbol_filters_def zero_step_exchange_def to_float_def)
  have b: "get_asset_balance zero_step_exchange (BASE_ASSET example_config)
      = Inr (Some (Number (Fin 1)))"
    by (simp add: zero_step_exchange_def)
  from missing_or_zero_step [OF c(1) a(1) f1] missing_or_zero_step [OF c(2) a(2) f2, of "Fin (1 / 100)" "Fin 1"] b
  show ?thesis by (simp add: example_config_def)
qed

text \<open>
  C6, counterexample.  \<open>truncate\<close> can exceed its argument, and its result times
  \<open>10 ^ d\<close> need not be an integer.  The float just below \<open>0.05\<close> times \<open>100\<close> rounds
  to \<open>5.0\<close>, so \<open>truncate\<close> returns the float \<open>0.05\<close>, which is larger.  For \<open>0.57\<close> the
  result is the float \<open>0.56\<close>, whose exact value times \<open>100\<close> is not an integer, and whose
  float product with \<open>100\<close> is \<open>56.00000000000001\<close>.
\<close>

theorem truncate_exceeds_argument:
  "is_double (7205759403792793 / 2 ^ 57)
   \<and> truncate (Fin (7205759403792793 / 2 ^ 57)) 2 = Inr (Fin (3602879701896397 / 2 ^ 56))
   \<and> (7205759403792793 / 2 ^ 57 :: real) < 3602879701896397 / 2 ^ 56
   \<and> is_double (5134103575202365 / 2 ^ 53)
   \<and> truncate (Fin (5134103575202365 / 2 ^ 53)) 2 = Inr (Fin (1261007895663739 / 2 ^ 51))
   \<and> (1261007895663739 / 2 ^ 51 :: real) * 10 ^ 2 \<notin> \<int>
   \<and> float_mul (Fin (1261007895663739 / 2 ^ 51)) (Fin 100) = Fin (7881299347898369 / 2 ^ 47)"
proof -
  have "truncate (Fin (7205759403792793 / 2 ^ 57)) 2 = Inr (Fin (3602879701896397 / 2 ^ 56))"
    using ex_below_005_times_100 ex_5_div_100 by (simp add: truncate_unfold int_truediv_def)
  moreover have "truncate (Fin (5134103575202365 / 2 ^ 53)) 2 = Inr (Fin (1261007895663739 / 2 ^ 51))"
    using ex_057_times_100 ex_56_div_100 by (simp add: truncate_unfold int_truediv_def)
  moreover have "(1261007895663739 / 2 ^ 51 :: real) * 10 ^ 2 \<notin> \<int>"
  proof
    assume "(1261007895663739 / 2 ^ 51 :: real) * 10 ^ 2 \<in> \<int>"
    then have "of_int \<lfloor>(1261007895663739 / 2 ^ 51 :: real) * 10 ^ 2\<rfloor>
        = (1261007895663739 / 2 ^ 51 :: real) * 10 ^ 2" by (rule of_int_floor)
    then show False by simp
  qed
  moreover have "float_mul (Fin (1261007895663739 / 2 ^ 51)) (Fin 100) = Fin (7881299347898369 / 2 ^ 47)"
    using ex_056_times_100 by simp
  ultimately show ?thesis
    using ex_below_005_double ex_057_double by (simp add: is_double_def)
qed

text \<open>
  C6, as amended.  For a finite \<open>x \<ge> 0\<close> and \<open>0 \<le> d \<le> 22\<close> (so that \<open>10 ^ d\<close> is a
  float) with \<open>x * 10 ^ d \<le> 2 ^ 1000\<close>, \<open>truncate(x, d)\<close> returns the float nearest to
  \<open>n / 10 ^ d\<close>, where \<open>n\<close> is the floor (toward minus infinity, not the nearest integer)
  of the float product \<open>y\<close> of \<open>x\<close> and \<open>10 ^ d\<close>.  The result times \<open>10 ^ d\<close> is the
  integer \<open>n\<close> up to a relative error of \<open>2 ^ - 53\<close>, and the result is at most
  \<open>x * (1 + 2 ^ - 53) ^ 2\<close>: it exceeds \<open>x\<close> by rounding error at most.
\<close>

theorem truncate_floor_bounds:
  assumes "0 \<le> x" and "d \<le> 22" and "x * 10 ^ d \<le> 2 ^ 1000"
  shows "\<exists>y r. float_mul (Fin x) (Fin (10 ^ d)) = Fin y
           \<and> truncate (Fin x) d = Inr (Fin r)
           \<and> round_double (of_int \<lfloor>y\<rfloor> / 10 ^ d) = Fin r
           \<and> \<bar>r * 10 ^ d - of_int \<lfloor>y\<rfloor>\<bar> \<le> of_int \<lfloor>y\<rfloor> / 2 ^ 53
           \<and> r \<le> x * (1 + 1 / 2 ^ 53) ^ 2"
proof -
  obtain y r where *:
    "float_mul (Fin x) (Fin (10 ^ d)) = Fin y"
    "truncate (Fin x) d = Inr (Fin r)"
    "round_double (of_int \<lfloor>y\<rfloor> / 10 ^ d) = Fin r"
    "\<bar>r - of_int \<lfloor>y\<rfloor> / 10 ^ d\<bar> \<le> (of_int \<lfloor>y\<rfloor> / 10 ^ d) / 2 ^ 53"
    "r \<le> x * (1 + 1 / 2 ^ 53) * (1 + 1 / 2 ^ 53)"
    using truncate_bounds [OF assms] by metis
  define n :: real where "n = of_int \<lfloor>y\<rfloor>"
  define p :: real where "p = 10 ^ d"
  have p0: "0 < p" by (simp add: p_def)
  have "\<bar>r - n / p\<bar> * p \<le> (n / p) / 2 ^ 53 * p"
    using *(4) p0 unfolding n_def p_def by (intro mult_right_mono) simp_all
  moreover have "\<bar>r - n / p\<bar> * p = \<bar>r * p - n\<bar>"
  proof -
    have "\<bar>r - n / p\<bar> * p = \<bar>(r - n / p) * p\<bar>" using p0 by (simp add: abs_mult)
    also have "(r - n / p) * p = r * p - n" using p0 by (simp add: field_simps)
    finally show ?thesis .
  qed
  moreover have "(n / p) / 2 ^ 53 * p = n / 2 ^ 53" using p0 by simp
  ultimately have "\<bar>r * p - n\<bar> \<le> n / 2 ^ 53" by simp
  moreover have "x * (1 + 1 / 2 ^ 53) * (1 + 1 / 2 ^ 53) = x * (1 + 1 / 2 ^ 53) ^ 2"
    by (simp add: power2_eq_square)
  ultimately show ?thesis using * unfolding n_def p_def by metis
qed

theorem truncate_floor_bounds_witness:
  "(0::real) \<le> 5134103575202365 / 2 ^ 53 \<and> (2::nat) \<le> 22
   \<and> (5134103575202365 / 2 ^ 53 :: real) * 10 ^ 2 \<le> 2 ^ 1000
   \<and> truncate (Fin (5134103575202365 / 2 ^ 53)) 2 = Inr (Fin (1261007895663739 / 2 ^ 51))
   \<and> (1261007895663739 / 2 ^ 51 :: real) \<le> 5134103575202365 / 2 ^ 53 * (1 + 1 / 2 ^ 53) ^ 2"
proof -
  have h: "(0::real) \<le> 5134103575202365 / 2 ^ 53" "(2::nat) \<le> 22"
    "(5134103575202365 / 2 ^ 53 :: real) * 10 ^ 2 \<le> 2 ^ 1000"
    by simp_all
  have t: "truncate (Fin (5134103575202365 / 2 ^ 53)) 2 = Inr (Fin (1261007895663739 / 2 ^ 51))"
    using ex_057_times_100 ex_56_div_100 by (simp add: truncate_unfold int_truediv_def)
  from truncate_floor_bounds [OF h] obtain r where
    "truncate (Fin (5134103575202365 / 2 ^ 53)) 2 = Inr (Fin r)"
    "r \<le> 5134103575202365 / 2 ^ 53 * (1 + 1 / 2 ^ 53) ^ 2"
    by blast
  with t have "(1261007895663739 / 2 ^ 51 :: real) \<le> 5134103575202365 / 2 ^ 53 * (1 + 1 / 2 ^ 53) ^ 2"
    by simp
  with h t show ?thesis by blast
qed




text \<open>
  C7, counterexample.  \<open>round_step_size\<close> can exceed the quantity: for the floats
  \<open>1.7\<close> and \<open>0.1\<close> the quotient rounds to \<open>17.0\<close> and \<open>17 * 0.1\<close> rounds to
  \<open>1.7000000000000002\<close>, which is larger than \<open>1.7\<close>.
\<close>

theorem round_step_size_exceeds_quantity:
  "is_double (7656119366529843 / 2 ^ 52) \<and> is_double (3602879701896397 / 2 ^ 55)
   \<and> (0::real) < 3602879701896397 / 2 ^ 55
   \<and> round_step_size (Fin (7656119366529843 / 2 ^ 52)) (Fin (3602879701896397 / 2 ^ 55))
       = Inr (Fin (1914029841632461 / 2 ^ 50))
   \<and> (7656119366529843 / 2 ^ 52 :: real) < 1914029841632461 / 2 ^ 50"
  using ex_rss_17_01 ex_17_double ex_01_double by (simp add: is_double_def)

text \<open>
  C7, as amended.  For a finite quantity \<open>q \<ge> 0\<close> and a step \<open>s\<close> in the normal range
  (\<open>2 ^ - 1022 \<le> s\<close>) with \<open>q \<le> 2 ^ 1000\<close> and \<open>q / s \<le> 2 ^ 1000\<close>,
  \<open>round_step_size(q, s)\<close> returns \<open>floor(q / s) * s\<close> as floats compute it: with \<open>t\<close>
  the float quotient and \<open>n = floor(t)\<close> (an integer that converts to a float exactly), the
  result is the float nearest to \<open>n * s\<close>; it is the integer multiple \<open>n * s\<close> of the step
  up to a relative error of \<open>2 ^ - 53\<close>, and it is at most \<open>q * (1 + 2 ^ - 53) ^ 2\<close>: it
  exceeds \<open>q\<close> by rounding error at most.
\<close>

theorem round_step_size_floor_bounds:
  assumes "0 \<le> q" and "2 powi (- 1022) \<le> s" and "q \<le> 2 ^ 1000" and "q / s \<le> 2 ^ 1000"
  shows "\<exists>t r. float_truediv (Fin q) (Fin s) = Inr (Fin t)
           \<and> float_of_int \<lfloor>t\<rfloor> = Inr (Fin (of_int \<lfloor>t\<rfloor>))
           \<and> round_step_size (Fin q) (Fin s) = Inr (Fin r)
           \<and> float_mul (Fin (of_int \<lfloor>t\<rfloor>)) (Fin s) = Fin r
           \<and> \<bar>r - of_int \<lfloor>t\<rfloor> * s\<bar> \<le> of_int \<lfloor>t\<rfloor> * s / 2 ^ 53
           \<and> r \<le> q * (1 + 1 / 2 ^ 53) ^ 2"
proof -
  obtain t r where *:
    "float_truediv (Fin q) (Fin s) = Inr (Fin t)"
    "float_of_int \<lfloor>t\<rfloor> = Inr (Fin (of_int \<lfloor>t\<rfloor>))"
    "round_step_size (Fin q) (Fin s) = Inr (Fin r)"
    "round_double (of_int \<lfloor>t\<rfloor> * s) = Fin r"
    "\<bar>r - of_int \<lfloor>t\<rfloor> * s\<bar> \<le> of_int \<lfloor>t\<rfloor> * s / 2 ^ 53"
    "r \<le> q * (1 + 1 / 2 ^ 53) * (1 + 1 / 2 ^ 53)"
    using round_step_size_bounds [OF assms] by metis
  have "float_mul (Fin (of_int \<lfloor>t\<rfloor>)) (Fin s) = Fin r" using *(4) by simp
  moreover have "q * (1 + 1 / 2 ^ 53) * (1 + 1 / 2 ^ 53) = q * (1 + 1 / 2 ^ 53) ^ 2"
    by (simp add: power2_eq_square)
  ultimately show ?thesis using * by metis
qed

theorem round_step_size_floor_bounds_witness:
  "(0::real) \<le> 7656119366529843 / 2 ^ 52
   \<and> (2::real) powi (- 1022) \<le> 3602879701896397 / 2 ^ 55
   \<and> (7656119366529843 / 2 ^ 52 :: real) \<le> 2 ^ 1000
   \<and> (7656119366529843 / 2 ^ 52 :: real) / (3602879701896397 / 2 ^ 55) \<le> 2 ^ 1000
   \<and> round_step_size (Fin (7656119366529843 / 2 ^ 52)) (Fin (3602879701896397 / 2 ^ 55))
       = Inr (Fin (1914029841632461 / 2 ^ 50))
   \<and> (1914029841632461 / 2 ^ 50 :: real) \<le> 7656119366529843 / 2 ^ 52 * (1 + 1 / 2 ^ 53) ^ 2"
proof -
  have h: "(0::real) \<le> 7656119366529843 / 2 ^ 52"
    "(2::real) powi (- 1022) \<le> 3602879701896397 / 2 ^ 55"
    "(7656119366529843 / 2 ^ 52 :: real) \<le> 2 ^ 1000"
    "(7656119366529843 / 2 ^ 52 :: real) / (3602879701896397 / 2 ^ 55) \<le> 2 ^ 1000"
    by simp_all
  from round_step_size_floor_bounds [OF h] obtain r where
    "round_step_size (Fin (7656119366529843 / 2 ^ 52)) (Fin (3602879701896397 / 2 ^ 55)) = Inr (Fin r)"
    "r \<le> 7656119366529843 / 2 ^ 52 * (1 + 1 / 2 ^ 53) ^ 2"
    by blast
  with ex_rss_17_01
  have "(1914029841632461 / 2 ^ 50 :: real) \<le> 7656119366529843 / 2 ^ 52 * (1 + 1 / 2 ^ 53) ^ 2"
    by simp
  with h ex_rss_17_01 show ?thesis by blast
qed

text \<open>
  C10, counterexample.  The float \<open>9e-11\<close> is a positive step size smaller than
  \<open>10 ^ - 10\<close>, yet its rendering with 10 fractional digits is \<open>0.0000000001\<close> (the
  rendering rounds), so \<open>decimal_places_of\<close> is 10, not 0.
\<close>

theorem decimal_places_of_below_1e10:
  "is_double (870426590122533 / 2 ^ 83) \<and> (0::real) < 870426590122533 / 2 ^ 83 \<and> (870426590122533 / 2 ^ 83 :: real) < 1 / 10 ^ 10
   \<and> decimal_places_of (Fin (870426590122533 / 2 ^ 83)) = Inr 10"
proof -
  have "length (kept_digits (870426590122533 / 2 ^ 83)) = 10" by (rule kept_digits_one) simp_all
  then have "decimal_places_of (Fin (870426590122533 / 2 ^ 83)) = Inr 10" by (simp only: decimal_places_of_finite)
  then show ?thesis using ex_9e11_double by (simp add: is_double_def)
qed

text \<open>
  C10, as amended.  For every positive finite step size, the decimal count is the number of
  fractional digits left when the trailing zeros are stripped from the rendering with 10
  fractional digits, hence between 0 and 10.  A step size of at most \<open>0.5 * 10 ^ - 10\<close>
  yields 0, and then \<open>round(qty, 0)\<close> re-rounds the sell quantity to a whole number (ties to
  even); a step size above \<open>0.5 * 10 ^ - 10\<close> and below \<open>1.5 * 10 ^ - 10\<close> yields 10.
\<close>

theorem decimal_places_of_range:
  assumes "0 < s"
  shows "decimal_places_of (Fin s) = Inr (length (kept_digits s))
     \<and> length (kept_digits s) \<le> 10
     \<and> (s * 10 ^ 10 \<le> 1 / 2 \<longrightarrow>
          decimal_places_of (Fin s) = Inr 0
          \<and> (\<forall>y. \<bar>y\<bar> \<le> 2 ^ 53 \<longrightarrow> py_round (Fin y) 0 = Inr (Fin (of_int (round_half_even y)))))
     \<and> (1 / 2 < s * 10 ^ 10 \<and> s * 10 ^ 10 < 3 / 2 \<longrightarrow> decimal_places_of (Fin s) = Inr 10)"
proof -
  have a: "\<bar>s\<bar> = s" using assms by simp
  have "decimal_places_of (Fin s) = Inr 0" if "s * 10 ^ 10 \<le> 1 / 2"
    using kept_digits_small [of s] that unfolding a by (simp add: decimal_places_of_finite)
  moreover have "decimal_places_of (Fin s) = Inr 10" if "1 / 2 < s * 10 ^ 10 \<and> s * 10 ^ 10 < 3 / 2"
    using kept_digits_one [of s] that unfolding a by (simp add: decimal_places_of_finite)
  ultimately show ?thesis
    using decimal_places_of_finite [of s] length_kept_digits [of s] py_round_whole by blast
qed

theorem decimal_places_of_range_witness:
  "(0::real) < 6189700196426901 / 2 ^ 89 \<and> (6189700196426901 / 2 ^ 89 :: real) * 10 ^ 10 \<le> 1 / 2
   \<and> decimal_places_of (Fin (6189700196426901 / 2 ^ 89)) = Inr 0
   \<and> \<bar>5404319552844595 / 2 ^ 53 :: real\<bar> \<le> 2 ^ 53
   \<and> py_round (Fin (5404319552844595 / 2 ^ 53)) 0 = Inr (Fin 1)"
proof -
  have h: "(0::real) < 6189700196426901 / 2 ^ 89" by simp
  have l: "(6189700196426901 / 2 ^ 89 :: real) * 10 ^ 10 \<le> 1 / 2" by simp
  have y: "\<bar>5404319552844595 / 2 ^ 53 :: real\<bar> \<le> 2 ^ 53" by simp
  have r: "round_half_even (5404319552844595 / 2 ^ 53) = 1" by (simp add: round_half_even_def)
  from decimal_places_of_range [OF h] l y
  have "decimal_places_of (Fin (6189700196426901 / 2 ^ 89)) = Inr 0"
    "py_round (Fin (5404319552844595 / 2 ^ 53)) 0 = Inr (Fin (of_int (round_half_even (5404319552844595 / 2 ^ 53))))"
    by blast+
  then show ?thesis using h l y unfolding r by simp
qed

(*CLAIMS*)

end
